theory Spec2Isabelle
  imports Main
begin

unbundle bit_operations_syntax

section \<open>Python string primitives used by the program\<close>

text \<open>
  Python strings are modelled as \<^typ>\<open>string\<close>, that is, as lists of 8-bit characters
  (code points U+0000 to U+00FF). In that range the regular-expression class \<open>\d\<close> and
  the test \<open>s.isascii() and s.isdigit()\<close> both accept exactly the characters
  \<open>0\<close> to \<open>9\<close>. Decimal digits of other scripts, which \<open>\d\<close> also matches in
  Python, lie outside this range and are not covered by the model.
\<close>

definition is_digit :: "char \<Rightarrow> bool" where
  "is_digit c = (c \<in> set ''0123456789'')"

definition digit_val :: "char \<Rightarrow> int" where
  "digit_val c = of_char c - 48"

text \<open>\<open>s.isascii() and s.isdigit()\<close>: false on the empty string.\<close>

definition isascii_isdigit :: "string \<Rightarrow> bool" where
  "isascii_isdigit s = (s \<noteq> [] \<and> list_all is_digit s)"

text \<open>
  \<open>int(s, 10)\<close> on a string of ASCII digits (leading zeros are allowed). Python's limit
  on the length of the strings that \<open>int\<close> converts (4300 digits by default) is not
  modelled: the strings that \<open>generate_random_ip\<close> passes on have at most three
  characters in each numeric field.
\<close>

definition int_of_digits :: "string \<Rightarrow> int" where
  "int_of_digits s = foldl (\<lambda>acc c. 10 * acc + digit_val c) 0 s"

text \<open>\<open>s.split(sep)\<close> for a one-character separator: always at least one piece.\<close>

fun split_on :: "char \<Rightarrow> string \<Rightarrow> string list" where
  "split_on sep [] = [[]]"
| "split_on sep (c # cs) =
     (if c = sep then [] # split_on sep cs
      else (case split_on sep cs of
              [] \<Rightarrow> [[c]]
            | p # ps \<Rightarrow> (c # p) # ps))"

text \<open>
  \<open>str(n)\<close> for a non-negative integer. \<open>digit_char\<close> is applied to numbers below 10
  only.
\<close>

definition digit_char :: "nat \<Rightarrow> char" where
  "digit_char d = ''0123456789'' ! d"

fun str_nat :: "nat \<Rightarrow> string" where
  "str_nat n = (if n < 10 then [digit_char n] else str_nat (n div 10) @ [digit_char (n mod 10)])"

declare str_nat.simps [simp del]

text \<open>\<open>sep.join(parts)\<close>.\<close>

fun join :: "string \<Rightarrow> string list \<Rightarrow> string" where
  "join sep [] = []"
| "join sep [p] = p"
| "join sep (p # q # ps) = p @ sep @ join sep (q # ps)"

section \<open>The regular expression of \<open>validate_subnet\<close>\<close>

text \<open>
  The fragment of Python's \<open>re\<close> syntax that the pattern
  \<^verbatim>\<open>^(\d{1,3}\.){3}\d{1,3}/\d{1,2}$\<close> uses. A matcher state is the number of characters
  consumed so far and the rest of the input; \<open>rmatch\<close> returns every state in which a
  match of the expression can end, in the order a backtracking matcher tries them
  (greedy repetition first).
\<close>

datatype regex =
    Bol                      \<comment> \<open>\<open>^\<close>\<close>
  | Eol                      \<comment> \<open>\<open>$\<close>\<close>
  | Digit                    \<comment> \<open>\<open>\d\<close>\<close>
  | Lit char                 \<comment> \<open>a literal (escaped) character\<close>
  | Seq regex regex          \<comment> \<open>concatenation\<close>
  | Repeat regex nat nat     \<comment> \<open>\<open>r{lo,hi}\<close>\<close>

type_synonym mstate = "nat \<times> string"

fun repeat :: "(mstate \<Rightarrow> mstate list) \<Rightarrow> nat \<Rightarrow> nat \<Rightarrow> mstate \<Rightarrow> mstate list" where
  "repeat f lo 0 st = (if lo = 0 then [st] else [])"
| "repeat f lo (Suc hi) st =
     concat (map (repeat f (lo - 1) hi) (f st)) @ (if lo = 0 then [st] else [])"

text \<open>
  Without the MULTILINE flag, \<open>^\<close> matches only at the start of the string, and \<open>$\<close>
  matches at the end of the string and also just before a newline that is the last
  character of the string.
\<close>

primrec rmatch :: "regex \<Rightarrow> mstate \<Rightarrow> mstate list" where
  "rmatch Bol = (\<lambda>st. if fst st = 0 then [st] else [])"
| "rmatch Eol = (\<lambda>st. if snd st = [] \<or> snd st = [CHR 0x0A] then [st] else [])"
| "rmatch Digit = (\<lambda>st. case snd st of
                           [] \<Rightarrow> []
                         | c # cs \<Rightarrow> if is_digit c then [(Suc (fst st), cs)] else [])"
| "rmatch (Lit x) = (\<lambda>st. case snd st of
                           [] \<Rightarrow> []
                         | c # cs \<Rightarrow> if c = x then [(Suc (fst st), cs)] else [])"
| "rmatch (Seq a b) = (\<lambda>st. concat (map (rmatch b) (rmatch a st)))"
| "rmatch (Repeat r lo hi) = repeat (rmatch r) lo hi"

text \<open>\<open>bool(re.match(pattern, s))\<close>: some match starts at position 0.\<close>

definition re_match :: "regex \<Rightarrow> string \<Rightarrow> bool" where
  "re_match r s = (rmatch r (0, s) \<noteq> [])"

text \<open>\<^verbatim>\<open>subnet_pattern = r'^(\d{1,3}\.){3}\d{1,3}/\d{1,2}$'\<close>\<close>

definition subnet_pattern :: regex where
  "subnet_pattern =
     Seq Bol
    (Seq (Repeat (Seq (Repeat Digit 1 3) (Lit CHR ''.'')) 3 3)
    (Seq (Repeat Digit 1 3)
    (Seq (Lit CHR ''/'')
    (Seq (Repeat Digit 1 2)
         Eol))))"

definition validate_subnet :: "string \<Rightarrow> bool" where
  "validate_subnet subnet = re_match subnet_pattern subnet"

section \<open>The standard library's \<open>ipaddress.IPv4Network\<close>\<close>

text \<open>
  \<open>generate_random_ip\<close> calls \<open>ipaddress.IPv4Network(subnet, strict=False)\<close> and
  \<open>network.hosts()\<close>. The definitions below follow CPython's \<open>ipaddress\<close> module
  (version 3.9.5 and later: leading zeros in an octet are rejected, and \<open>hosts()\<close> of a
  /32 network is the one-element list of its address). Every \<open>ValueError\<close> the module
  raises is a value of \<open>value_error\<close>; Python integers are \<^typ>\<open>int\<close>.
\<close>

datatype octet_error =
    EmptyOctet
  | NotDecimalDigits
  | TooManyChars
  | LeadingZeros
  | OctetTooBig int

datatype value_error =
    OnlyOneSlashPermitted
  | UnexpectedSlash
  | AddressEmpty
  | Expected4Octets
  | BadOctet octet_error
  | InvalidNetmask string

definition ALL_ONES :: int where
  "ALL_ONES = 2 ^ 32 - 1"

definition max_prefixlen :: int where
  "max_prefixlen = 32"

definition parse_octet :: "string \<Rightarrow> octet_error + int" where
  "parse_octet octet_str =
     (if octet_str = [] then Inl EmptyOctet
      else if \<not> isascii_isdigit octet_str then Inl NotDecimalDigits
      else if length octet_str > 3 then Inl TooManyChars
      else if octet_str \<noteq> ''0'' \<and> hd octet_str = CHR ''0'' then Inl LeadingZeros
      else let octet_int = int_of_digits octet_str
           in if octet_int > 255 then Inl (OctetTooBig octet_int) else Inr octet_int)"

text \<open>\<open>map(cls._parse_octet, octets)\<close>, consumed from the left: the first bad octet raises.\<close>

fun parse_octets :: "string list \<Rightarrow> octet_error + int list" where
  "parse_octets [] = Inr []"
| "parse_octets (x # xs) =
     (case parse_octet x of
        Inl e \<Rightarrow> Inl e
      | Inr b \<Rightarrow> (case parse_octets xs of Inl e \<Rightarrow> Inl e | Inr bs \<Rightarrow> Inr (b # bs)))"

text \<open>\<open>int.from_bytes(bs, 'big')\<close> and \<open>n.to_bytes(4, 'big')\<close>.\<close>

definition from_bytes_big :: "int list \<Rightarrow> int" where
  "from_bytes_big bs = foldl (\<lambda>acc b. acc * 256 + b) 0 bs"

definition to_bytes_big4 :: "int \<Rightarrow> int list" where
  "to_bytes_big4 n = [n div 2 ^ 24 mod 256, n div 2 ^ 16 mod 256, n div 2 ^ 8 mod 256, n mod 256]"

definition ip_int_from_string :: "string \<Rightarrow> value_error + int" where
  "ip_int_from_string ip_str =
     (if ip_str = [] then Inl AddressEmpty
      else let octets = split_on CHR ''.'' ip_str
           in if length octets \<noteq> 4 then Inl Expected4Octets
              else (case parse_octets octets of
                      Inl e \<Rightarrow> Inl (BadOctet e)
                    | Inr bs \<Rightarrow> Inr (from_bytes_big bs)))"

text \<open>\<open>IPv4Address(addr_str)\<close> for a string argument.\<close>

definition IPv4Address :: "string \<Rightarrow> value_error + int" where
  "IPv4Address addr_str =
     (if CHR ''/'' \<in> set addr_str then Inl UnexpectedSlash else ip_int_from_string addr_str)"

text \<open>
  \<open>_split_addr_prefix\<close> on a string: the address part and the part after the slash, or
  \<open>None\<close> where the source returns the integer \<open>_max_prefixlen\<close> because there is no slash.
  \<open>split_on\<close> never returns the empty list, so \<open>hd\<close> is always defined here.
\<close>

definition split_addr_prefix :: "string \<Rightarrow> value_error + (string \<times> string option)" where
  "split_addr_prefix address =
     (let addr = split_on CHR ''/'' address
      in if length addr > 2 then Inl OnlyOneSlashPermitted
         else if length addr > 1 then Inr (hd addr, Some (addr ! 1))
         else Inr (hd addr, None))"

definition ip_int_from_prefix :: "int \<Rightarrow> int" where
  "ip_int_from_prefix prefixlen = ALL_ONES XOR (drop_bit (nat prefixlen) ALL_ONES)"

definition prefix_from_prefix_string :: "string \<Rightarrow> value_error + int" where
  "prefix_from_prefix_string prefixlen_str =
     (if \<not> isascii_isdigit prefixlen_str then Inl (InvalidNetmask prefixlen_str)
      else let prefixlen = int_of_digits prefixlen_str
           in if \<not> (0 \<le> prefixlen \<and> prefixlen \<le> max_prefixlen)
              then Inl (InvalidNetmask prefixlen_str)
              else Inr prefixlen)"

fun bit_length :: "nat \<Rightarrow> nat" where
  "bit_length n = (if n = 0 then 0 else Suc (bit_length (n div 2)))"

declare bit_length.simps [simp del]

definition count_righthand_zero_bits :: "int \<Rightarrow> int \<Rightarrow> int" where
  "count_righthand_zero_bits number bits =
     (if number = 0 then bits
      else min bits (int (bit_length (nat (NOT number AND (number - 1))))))"

text \<open>\<open>_prefix_from_ip_int\<close>: \<open>None\<close> where the source raises (zeroes and ones mixed).\<close>

definition prefix_from_ip_int :: "int \<Rightarrow> int option" where
  "prefix_from_ip_int ip_int =
     (let trailing_zeroes = count_righthand_zero_bits ip_int max_prefixlen;
          prefixlen = max_prefixlen - trailing_zeroes;
          leading_ones = drop_bit (nat trailing_zeroes) ip_int;
          all_ones = push_bit (nat prefixlen) 1 - 1
      in if leading_ones \<noteq> all_ones then None else Some prefixlen)"

definition prefix_from_ip_string :: "string \<Rightarrow> value_error + int" where
  "prefix_from_ip_string ip_str =
     (case ip_int_from_string ip_str of
        Inl e \<Rightarrow> Inl (InvalidNetmask ip_str)
      | Inr ip_int \<Rightarrow>
          (case prefix_from_ip_int ip_int of
             Some p \<Rightarrow> Inr p
           | None \<Rightarrow>
               (case prefix_from_ip_int (ip_int XOR ALL_ONES) of
                  Some p \<Rightarrow> Inr p
                | None \<Rightarrow> Inl (InvalidNetmask ip_str))))"

text \<open>\<open>_make_netmask\<close>: the netmask and the prefix length (the cache is not modelled).\<close>

definition make_netmask :: "string option \<Rightarrow> value_error + (int \<times> int)" where
  "make_netmask arg =
     (case arg of
        None \<Rightarrow> Inr (ip_int_from_prefix max_prefixlen, max_prefixlen)
      | Some s \<Rightarrow>
          (case prefix_from_prefix_string s of
             Inr prefixlen \<Rightarrow> Inr (ip_int_from_prefix prefixlen, prefixlen)
           | Inl e \<Rightarrow>
               (case prefix_from_ip_string s of
                  Inl e' \<Rightarrow> Inl e'
                | Inr prefixlen \<Rightarrow> Inr (ip_int_from_prefix prefixlen, prefixlen))))"

text \<open>
  The network object. \<open>addr\<close> is the address as written, before masking: the \<open>hosts\<close>
  of a /32 network is built from it.
\<close>

record ipv4_network =
  network_address :: int
  netmask :: int
  prefixlen :: int
  addr :: int

text \<open>\<open>IPv4Network(address, strict=False)\<close>: host bits are masked off, not rejected.\<close>

definition IPv4Network :: "string \<Rightarrow> value_error + ipv4_network" where
  "IPv4Network address =
     (case split_addr_prefix address of
        Inl e \<Rightarrow> Inl e
      | Inr (a, netmask_str) \<Rightarrow>
          (case IPv4Address a of
             Inl e \<Rightarrow> Inl e
           | Inr packed \<Rightarrow>
               (case make_netmask netmask_str of
                  Inl e \<Rightarrow> Inl e
                | Inr (nm, plen) \<Rightarrow>
                    Inr \<lparr>network_address =
                           (if packed AND nm \<noteq> packed then packed AND nm else packed),
                         netmask = nm, prefixlen = plen, addr = packed\<rparr>)))"

definition hostmask :: "ipv4_network \<Rightarrow> int" where
  "hostmask net = netmask net XOR ALL_ONES"

definition broadcast_address :: "ipv4_network \<Rightarrow> int" where
  "broadcast_address net = network_address net OR hostmask net"

text \<open>
  \<open>list(network.hosts())\<close>: for a /31 every address of the block
  (\<open>range(network, broadcast + 1)\<close>), for a /32 the single address, otherwise
  \<open>range(network + 1, broadcast)\<close>.
\<close>

definition hosts :: "ipv4_network \<Rightarrow> int list" where
  "hosts net =
     (if prefixlen net = max_prefixlen - 1
        then [network_address net .. broadcast_address net]
      else if prefixlen net = max_prefixlen
        then [addr net]
      else [network_address net + 1 .. broadcast_address net - 1])"

text \<open>\<open>str(IPv4Address(n))\<close>: the dotted quad.\<close>

definition string_from_ip_int :: "int \<Rightarrow> string" where
  "string_from_ip_int ip_int = join ''.'' (map (\<lambda>b. str_nat (nat b)) (to_bytes_big4 ip_int))"

text \<open>\<open>str(network)\<close>: the canonical form \<open>base-address/prefixlen\<close>.\<close>

definition str_network :: "ipv4_network \<Rightarrow> string" where
  "str_network net =
     string_from_ip_int (network_address net) @ ''/'' @ str_nat (nat (prefixlen net))"

section \<open>The generator\<close>

text \<open>
  \<open>random.choice(seq)\<close> returns \<open>seq[i]\<close> for an index \<open>i\<close> drawn below \<open>len(seq)\<close>.
  The draw is a parameter \<open>r\<close> of the model, reduced modulo the length, so that every
  index is a possible outcome and no other is. The program calls it on a non-empty list
  only.
\<close>

definition random_choice :: "nat \<Rightarrow> 'a list \<Rightarrow> 'a" where
  "random_choice r seq = seq ! (r mod length seq)"

text \<open>
  The three places where \<open>generate_random_ip\<close> raises \<open>SubnetError\<close>, told apart by
  their message: \<open>Invalid subnet format ...\<close>, \<open>Invalid subnet: <ValueError>\<close> and
  \<open>No usable hosts in subnet <subnet>\<close>.
\<close>

datatype SubnetError =
    InvalidFormat
  | InvalidSubnet value_error
  | NoUsableHosts string

record IPGenerator =
  history :: "(string \<times> string) list"

definition init :: IPGenerator where
  "init = \<lparr>history = []\<rparr>"

text \<open>
  The call returns its result (the address string, or the error raised) and the generator
  after the call. \<open>SubnetError\<close> is not a \<open>ValueError\<close>, so the handler at the end of the
  \<open>try\<close> block wraps the library's errors only.
\<close>

definition generate_random_ip ::
  "nat \<Rightarrow> string \<Rightarrow> IPGenerator \<Rightarrow> (SubnetError + string) \<times> IPGenerator" where
  "generate_random_ip r subnet self =
     (if \<not> validate_subnet subnet then (Inl InvalidFormat, self)
      else (case IPv4Network subnet of
              Inl e \<Rightarrow> (Inl (InvalidSubnet e), self)
            | Inr network \<Rightarrow>
                (let ip_range = hosts network
                 in if ip_range = [] then (Inl (NoUsableHosts subnet), self)
                    else (let random_ip = string_from_ip_int (random_choice r ip_range)
                          in (Inr random_ip,
                              self\<lparr>history := history self @ [(subnet, random_ip)]\<rparr>)))))"

definition get_history :: "IPGenerator \<Rightarrow> (string \<times> string) list" where
  "get_history self = history self"

definition clear_history :: "IPGenerator \<Rightarrow> IPGenerator" where
  "clear_history self = self\<lparr>history := []\<rparr>"

section \<open>Sessions and the predicates of the specification\<close>

text \<open>
  A session is a sequence of operations on one generator, starting from \<open>init\<close>. Each
  \<open>generate_random_ip\<close> comes with the draw of its \<open>random.choice\<close>.
\<close>

datatype operation =
    GenerateRandomIp nat string
  | GetHistory
  | ClearHistory

fun apply_operation :: "operation \<Rightarrow> IPGenerator \<Rightarrow> IPGenerator" where
  "apply_operation (GenerateRandomIp r subnet) self = snd (generate_random_ip r subnet self)"
| "apply_operation GetHistory self = self"
| "apply_operation ClearHistory self = clear_history self"

fun run :: "operation list \<Rightarrow> IPGenerator \<Rightarrow> IPGenerator" where
  "run [] self = self"
| "run (c # cs) self = run cs (apply_operation c self)"

text \<open>
  A sequence of calls to \<open>generate_random_ip\<close>, each a draw and a subnet argument: the
  results in call order and the generator after the last call.
\<close>

fun calls :: "(nat \<times> string) list \<Rightarrow> IPGenerator \<Rightarrow> (SubnetError + string) list \<times> IPGenerator" where
  "calls [] self = ([], self)"
| "calls ((r, subnet) # cs) self =
     (case generate_random_ip r subnet self of
        (res, self') \<Rightarrow> (case calls cs self' of (rs, self'') \<Rightarrow> (res # rs, self'')))"

text \<open>
  What the history should hold after those calls: for each call that returned an address,
  in call order, the subnet argument paired with the address returned.
\<close>

fun recorded :: "(nat \<times> string) list \<Rightarrow> (SubnetError + string) list \<Rightarrow> (string \<times> string) list" where
  "recorded ((r, subnet) # cs) (Inr ip # rs) = (subnet, ip) # recorded cs rs"
| "recorded (c # cs) (Inl e # rs) = recorded cs rs"
| "recorded cs rs = []"

text \<open>
  The block of a network: with \<open>host_bits\<close> bits left for the host part, it is the
  \<open>2 ^ host_bits\<close> consecutive addresses that start at the network address. The last
  of them is the broadcast address.
\<close>

definition host_bits :: "ipv4_network \<Rightarrow> nat" where
  "host_bits net = nat (32 - prefixlen net)"

definition in_block :: "ipv4_network \<Rightarrow> int \<Rightarrow> bool" where
  "in_block net a =
     (network_address net \<le> a \<and> a < network_address net + 2 ^ host_bits net)"

text \<open>
  The host range in the words of the specification: all addresses of the block excluding
  the network address and the broadcast address. It is stated on the numbers, without
  the library's \<open>hosts\<close>.
\<close>

definition in_spec_host_range :: "ipv4_network \<Rightarrow> int \<Rightarrow> bool" where
  "in_spec_host_range net a =
     (in_block net a \<and> a \<noteq> network_address net
      \<and> a \<noteq> network_address net + 2 ^ host_bits net - 1)"

text \<open>
  The history invariant as the specification states it: the subnet string of an entry
  parses to a network, its address string parses to an address, and the address lies in
  the host range of the network. Both strings are read back with the parser, not
  compared with what the generator printed.
\<close>

definition entry_in_spec_host_range :: "string \<times> string \<Rightarrow> bool" where
  "entry_in_spec_host_range e =
     (case IPv4Network (fst e) of
        Inl err \<Rightarrow> False
      | Inr net \<Rightarrow>
          (case IPv4Address (snd e) of
             Inl err \<Rightarrow> False
           | Inr a \<Rightarrow> in_spec_host_range net a))"

text \<open>
  The invariant that the program maintains: the same, except that for a /31 or /32
  network the address may be any address of the block.
\<close>

definition entry_in_block_host_range :: "string \<times> string \<Rightarrow> bool" where
  "entry_in_block_host_range e =
     (case IPv4Network (fst e) of
        Inl err \<Rightarrow> False
      | Inr net \<Rightarrow>
          (case IPv4Address (snd e) of
             Inl err \<Rightarrow> False
           | Inr a \<Rightarrow>
               if prefixlen net \<le> 30 then in_spec_host_range net a else in_block net a))"

definition history_invariant :: "IPGenerator \<Rightarrow> bool" where
  "history_invariant self = list_all entry_in_block_host_range (history self)"

text \<open>
  The lexical shape in the words of the specification: four groups of one to three
  digits separated by dots, then a slash and one or two digits.
\<close>

definition digit_group :: "nat \<Rightarrow> nat \<Rightarrow> string \<Rightarrow> bool" where
  "digit_group lo hi g = (lo \<le> length g \<and> length g \<le> hi \<and> list_all is_digit g)"

definition cidr_string :: "string \<Rightarrow> string \<Rightarrow> string \<Rightarrow> string \<Rightarrow> string \<Rightarrow> string" where
  "cidr_string a b c d p = a @ ''.'' @ b @ ''.'' @ c @ ''.'' @ d @ ''/'' @ p"

definition lexical_shape :: "string \<Rightarrow> bool" where
  "lexical_shape s =
     (\<exists>a b c d p. s = cidr_string a b c d p \<and> digit_group 1 3 a \<and> digit_group 1 3 b
        \<and> digit_group 1 3 c \<and> digit_group 1 3 d \<and> digit_group 1 2 p)"

section \<open>Facts about the library model\<close>

subsection \<open>Netmasks as bit patterns\<close>

lemma ALL_ONES_mask: "ALL_ONES = mask 32"
  by (simp add: ALL_ONES_def mask_eq_exp_minus_1)

lemma ip_int_from_prefix_eq:
  assumes "0 \<le> p" "p \<le> 32"
  shows "ip_int_from_prefix p = push_bit (nat (32 - p)) (mask (nat p))"
  using assms unfolding ip_int_from_prefix_def ALL_ONES_mask
  by (auto simp add: bit_eq_iff bit_simps)

lemma and_netmask:
  assumes "0 \<le> p" "p \<le> 32" "0 \<le> a" "a < 2 ^ 32"
  shows "a AND ip_int_from_prefix p = push_bit (nat (32 - p)) (drop_bit (nat (32 - p)) a)"
proof -
  have "take_bit 32 a = a" using assms by (simp add: take_bit_int_eq_self)
  then have b: "\<And>n. bit a n \<Longrightarrow> n < 32"
    by (metis bit_take_bit_iff)
  show ?thesis
    unfolding ip_int_from_prefix_eq[OF assms(1,2)]
  proof (rule bit_eqI)
    fix n
    show "bit (a AND push_bit (nat (32 - p)) (mask (nat p))) n
          = bit (push_bit (nat (32 - p)) (drop_bit (nat (32 - p)) a)) n"
    proof (cases "bit a n")
      case True
      then have "n < 32" by (rule b)
      with True assms(1,2) show ?thesis by (auto simp add: bit_simps)
    next
      case False
      then show ?thesis by (auto simp add: bit_simps)
    qed
  qed
qed

lemma hostmask_eq:
  assumes "0 \<le> p" "p \<le> 32"
  shows "ip_int_from_prefix p XOR ALL_ONES = mask (nat (32 - p))"
  unfolding ip_int_from_prefix_eq[OF assms] ALL_ONES_mask
  using assms by (auto simp add: bit_eq_iff bit_simps)

lemma or_hostmask:
  "push_bit k (m::int) OR mask k = push_bit k m + 2 ^ k - 1"
proof -
  have "push_bit k m + mask k = push_bit k m OR mask k"
    by (rule disjunctive_add) (auto simp add: bit_simps)
  then show ?thesis by (simp add: mask_eq_exp_minus_1)
qed

lemma network_as_multiple:
  assumes "0 \<le> p" "p \<le> 32" "0 \<le> a" "a < 2 ^ 32"
  shows "a AND ip_int_from_prefix p = a - a mod 2 ^ nat (32 - p)"
  unfolding and_netmask[OF assms]
  by (simp add: push_bit_eq_mult drop_bit_eq_div minus_mod_eq_div_mult)

lemma broadcast_eq:
  assumes "0 \<le> p" "p \<le> 32" "0 \<le> a" "a < 2 ^ 32"
  shows "(a AND ip_int_from_prefix p) OR (ip_int_from_prefix p XOR ALL_ONES)
         = (a AND ip_int_from_prefix p) + 2 ^ nat (32 - p) - 1"
  unfolding and_netmask[OF assms] hostmask_eq[OF assms(1,2)]
  by (rule or_hostmask)

subsection \<open>What the parser returns\<close>

lemma digit_val_range: "is_digit c \<Longrightarrow> 0 \<le> digit_val c \<and> digit_val c \<le> 9"
  by (auto simp add: is_digit_def digit_val_def)

lemma foldl_digits_nonneg:
  "list_all is_digit s \<Longrightarrow> 0 \<le> acc \<Longrightarrow> 0 \<le> foldl (\<lambda>acc c. 10 * acc + digit_val c) acc s"
proof (induction s arbitrary: acc)
  case Nil
  then show ?case by simp
next
  case (Cons c s)
  from Cons.prems have "0 \<le> 10 * acc + digit_val c"
    using digit_val_range[of c] by simp
  with Cons show ?case by simp
qed

lemma int_of_digits_nonneg: "list_all is_digit s \<Longrightarrow> 0 \<le> int_of_digits s"
  unfolding int_of_digits_def by (rule foldl_digits_nonneg) simp_all

lemma parse_octet_range: "parse_octet s = Inr n \<Longrightarrow> 0 \<le> n \<and> n \<le> 255"
  by (auto simp add: parse_octet_def Let_def isascii_isdigit_def int_of_digits_nonneg
           split: if_splits)

lemma parse_octets_range:
  "parse_octets xs = Inr bs \<Longrightarrow> length bs = length xs \<and> (\<forall>b \<in> set bs. 0 \<le> b \<and> b \<le> 255)"
proof (induction xs arbitrary: bs)
  case Nil
  then show ?case by simp
next
  case (Cons x xs)
  then show ?case
    by (auto split: sum.splits dest: parse_octet_range)
qed

lemma from_bytes_big4:
  "from_bytes_big [a, b, c, d] = a * 2 ^ 24 + b * 2 ^ 16 + c * 2 ^ 8 + d"
  by (simp add: from_bytes_big_def)

lemma length4E:
  assumes "length xs = 4"
  obtains a b c d where "xs = [a, b, c, d]"
proof -
  from assms obtain a xs1 where 1: "xs = a # xs1" "length xs1 = 3"
    by (cases xs) auto
  then obtain b xs2 where 2: "xs1 = b # xs2" "length xs2 = 2"
    by (cases xs1) auto
  then obtain c xs3 where 3: "xs2 = c # xs3" "length xs3 = 1"
    by (cases xs2) auto
  then obtain d where 4: "xs3 = [d]"
    by (cases xs3) auto
  from 1 2 3 4 that show thesis by simp
qed

lemma ip_int_from_string_range:
  assumes "ip_int_from_string s = Inr packed"
  shows "0 \<le> packed \<and> packed < 2 ^ 32"
proof -
  from assms obtain bs where len: "length (split_on CHR ''.'' s) = 4"
      and po: "parse_octets (split_on CHR ''.'' s) = Inr bs" and pk: "packed = from_bytes_big bs"
    by (auto simp add: ip_int_from_string_def Let_def split: if_splits sum.splits)
  from parse_octets_range[OF po] len have l4: "length bs = 4"
      and rng: "\<forall>b \<in> set bs. 0 \<le> b \<and> b \<le> 255" by simp_all
  from l4 obtain a b c d where bs: "bs = [a, b, c, d]" by (rule length4E)
  with rng have "0 \<le> a" "a \<le> 255" "0 \<le> b" "b \<le> 255" "0 \<le> c" "c \<le> 255" "0 \<le> d" "d \<le> 255"
    by simp_all
  then show ?thesis unfolding pk bs from_bytes_big4 by simp
qed

lemma IPv4Address_range: "IPv4Address s = Inr packed \<Longrightarrow> 0 \<le> packed \<and> packed < 2 ^ 32"
  by (auto simp add: IPv4Address_def split: if_splits dest: ip_int_from_string_range)

lemma prefix_from_prefix_string_range:
  "prefix_from_prefix_string s = Inr p \<Longrightarrow> 0 \<le> p \<and> p \<le> 32"
  by (auto simp add: prefix_from_prefix_string_def Let_def max_prefixlen_def split: if_splits)

lemma count_righthand_zero_bits_range:
  "0 \<le> bits \<Longrightarrow> 0 \<le> count_righthand_zero_bits n bits \<and> count_righthand_zero_bits n bits \<le> bits"
  by (simp add: count_righthand_zero_bits_def)

lemma prefix_from_ip_int_range: "prefix_from_ip_int n = Some p \<Longrightarrow> 0 \<le> p \<and> p \<le> 32"
  using count_righthand_zero_bits_range[of max_prefixlen n]
  by (auto simp add: prefix_from_ip_int_def Let_def max_prefixlen_def split: if_splits)

lemma prefix_from_ip_string_range: "prefix_from_ip_string s = Inr p \<Longrightarrow> 0 \<le> p \<and> p \<le> 32"
  by (auto simp add: prefix_from_ip_string_def split: sum.splits option.splits
           dest: prefix_from_ip_int_range)

lemma make_netmask_props:
  "make_netmask m = Inr (nm, p) \<Longrightarrow> 0 \<le> p \<and> p \<le> 32 \<and> nm = ip_int_from_prefix p"
  by (auto simp add: make_netmask_def max_prefixlen_def split: option.splits sum.splits
           dest: prefix_from_prefix_string_range prefix_from_ip_string_range)

lemma IPv4Network_props:
  assumes "IPv4Network s = Inr net"
  shows "0 \<le> prefixlen net" "prefixlen net \<le> 32"
    "netmask net = ip_int_from_prefix (prefixlen net)"
    "0 \<le> addr net" "addr net < 2 ^ 32"
    "network_address net = addr net AND netmask net"
proof -
  from assms obtain a m packed nm p where
      ia: "IPv4Address a = Inr packed" and mn: "make_netmask m = Inr (nm, p)"
      and net: "net = \<lparr>network_address = (if packed AND nm \<noteq> packed then packed AND nm else packed),
                        netmask = nm, prefixlen = p, addr = packed\<rparr>"
    by (auto simp add: IPv4Network_def split: sum.splits prod.splits)
  from IPv4Address_range[OF ia] make_netmask_props[OF mn] net
  show "0 \<le> prefixlen net" "prefixlen net \<le> 32"
    "netmask net = ip_int_from_prefix (prefixlen net)"
    "0 \<le> addr net" "addr net < 2 ^ 32"
    "network_address net = addr net AND netmask net"
    by auto
qed

subsection \<open>Network and broadcast address as arithmetic\<close>

lemma network_address_eq:
  assumes "IPv4Network s = Inr net"
  shows "network_address net = addr net - addr net mod 2 ^ host_bits net"
  using IPv4Network_props[OF assms] network_as_multiple[of "prefixlen net" "addr net"]
  by (simp add: host_bits_def)

lemma broadcast_address_eq:
  assumes "IPv4Network s = Inr net"
  shows "broadcast_address net = network_address net + 2 ^ host_bits net - 1"
  using IPv4Network_props[OF assms] broadcast_eq[of "prefixlen net" "addr net"]
  by (simp add: host_bits_def broadcast_address_def hostmask_def)

lemma network_address_range:
  assumes "IPv4Network s = Inr net"
  shows "0 \<le> network_address net" "broadcast_address net < 2 ^ 32"
    "network_address net mod 2 ^ host_bits net = 0"
proof -
  let ?k = "host_bits net" and ?a = "addr net"
  note props = IPv4Network_props[OF assms]
  have k: "?k \<le> 32" using props(1) by (simp add: host_bits_def)
  have n: "network_address net = ?a div 2 ^ ?k * 2 ^ ?k"
    unfolding network_address_eq[OF assms] by (simp add: minus_mod_eq_div_mult)
  show "0 \<le> network_address net" using props(4) unfolding n by (simp add: pos_imp_zdiv_nonneg_iff)
  show "network_address net mod 2 ^ ?k = 0" unfolding n by simp
  have p32: "(2::int) ^ (32 - ?k) * 2 ^ ?k = 2 ^ 32"
    using k by (simp flip: power_add)
  have "?a div 2 ^ ?k < 2 ^ (32 - ?k)"
  proof (rule ccontr)
    assume "\<not> ?a div 2 ^ ?k < 2 ^ (32 - ?k)"
    then have "(2::int) ^ (32 - ?k) * 2 ^ ?k \<le> ?a div 2 ^ ?k * 2 ^ ?k"
      by (intro mult_right_mono) simp_all
    moreover have "?a div 2 ^ ?k * 2 ^ ?k \<le> ?a"
    proof -
      have "0 \<le> ?a mod 2 ^ ?k" by simp
      with div_mult_mod_eq[of ?a "2 ^ ?k"] show ?thesis by linarith
    qed
    ultimately show False using props(5) p32 by simp
  qed
  then have "?a div 2 ^ ?k + 1 \<le> 2 ^ (32 - ?k)" by simp
  then have "(?a div 2 ^ ?k + 1) * 2 ^ ?k \<le> 2 ^ (32 - ?k) * 2 ^ ?k"
    by (rule mult_right_mono) simp
  also have "\<dots> = 2 ^ 32" by (rule p32)
  finally show "broadcast_address net < 2 ^ 32"
    unfolding broadcast_address_eq[OF assms] n by (simp add: algebra_simps)
qed

subsection \<open>The effect of a call on the history\<close>

lemma generate_random_ip_failure_keeps_state:
  "fst (generate_random_ip r subnet g) = Inl e \<Longrightarrow> snd (generate_random_ip r subnet g) = g"
  by (auto simp add: generate_random_ip_def Let_def split: if_splits sum.splits)

lemma generate_random_ip_success_appends:
  "fst (generate_random_ip r subnet g) = Inr ip \<Longrightarrow>
   snd (generate_random_ip r subnet g) = g\<lparr>history := history g @ [(subnet, ip)]\<rparr>"
  by (auto simp add: generate_random_ip_def Let_def split: if_splits sum.splits)

lemma calls_history:
  "history (snd (calls cs g)) = history g @ recorded cs (fst (calls cs g))"
proof (induction cs arbitrary: g)
  case Nil
  then show ?case by simp
next
  case (Cons c cs)
  obtain r subnet where c: "c = (r, subnet)" by (cases c)
  obtain res g' where step: "generate_random_ip r subnet g = (res, g')"
    by (cases "generate_random_ip r subnet g")
  obtain rs g'' where rest: "calls cs g' = (rs, g'')" by (cases "calls cs g'")
  have ih: "history g'' = history g' @ recorded cs rs"
    using Cons.IH[of g'] rest by simp
  show ?case
  proof (cases res)
    case (Inl e)
    with step have "g' = g"
      using generate_random_ip_failure_keeps_state[of r subnet g e] by simp
    with ih Inl c step rest show ?thesis by simp
  next
    case (Inr ip)
    with step have "g' = g\<lparr>history := history g @ [(subnet, ip)]\<rparr>"
      using generate_random_ip_success_appends[of r subnet g ip] by simp
    with ih Inr c step rest show ?thesis by simp
  qed
qed

lemma calls_length: "length (fst (calls cs g)) = length cs"
  by (induction cs arbitrary: g) (auto split: prod.splits, metis fst_conv)

lemma recorded_length:
  "length rs = length cs \<Longrightarrow> length (recorded cs rs) = length (filter (\<lambda>res. \<not> isl res) rs)"
proof (induction cs rs rule: recorded.induct)
qed auto

subsection \<open>The hosts of a parsed network\<close>

lemma two_le_power_2: "2 \<le> k \<Longrightarrow> (4::int) \<le> 2 ^ k"
  using power_increasing[of 2 k "2::int"] by simp

lemma hosts_cases:
  assumes "IPv4Network s = Inr net"
  shows "hosts net =
     (if prefixlen net = 31 then [network_address net, network_address net + 1]
      else if prefixlen net = 32 then [network_address net]
      else [network_address net + 1 .. network_address net + 2 ^ host_bits net - 2])"
proof -
  note props = IPv4Network_props[OF assms]
  note n = network_address_eq[OF assms] and b = broadcast_address_eq[OF assms]
  show ?thesis
  proof (cases "prefixlen net = 31")
    case True
    then have "host_bits net = 1" by (simp add: host_bits_def)
    with True b show ?thesis
      by (simp add: hosts_def max_prefixlen_def upto.simps)
  next
    case False
    show ?thesis
    proof (cases "prefixlen net = 32")
      case True
      then have "host_bits net = 0" by (simp add: host_bits_def)
      with n have "network_address net = addr net" by simp
      with True show ?thesis by (simp add: hosts_def max_prefixlen_def)
    next
      case F2: False
      have "network_address net + 2 ^ host_bits net - 1 - 1 = network_address net + 2 ^ host_bits net - 2"
        by simp
      with False F2 b show ?thesis by (simp add: hosts_def max_prefixlen_def)
    qed
  qed
qed

lemma hosts_nonempty:
  assumes "IPv4Network s = Inr net"
  shows "hosts net \<noteq> []"
proof -
  note props = IPv4Network_props[OF assms]
  show ?thesis
  proof (cases "prefixlen net = 31 \<or> prefixlen net = 32")
    case True
    then show ?thesis unfolding hosts_cases[OF assms] by auto
  next
    case False
    with props(2) have "2 \<le> host_bits net" unfolding host_bits_def by linarith
    then have "(4::int) \<le> 2 ^ host_bits net" by (rule two_le_power_2)
    then have "network_address net + 1 \<le> network_address net + 2 ^ host_bits net - 2" by simp
    with False show ?thesis unfolding hosts_cases[OF assms] by (simp add: upto.simps)
  qed
qed

lemma hosts_strictly_inside:
  assumes "IPv4Network s = Inr net" "prefixlen net \<le> 30" "x \<in> set (hosts net)"
  shows "network_address net < x \<and> x < broadcast_address net"
  using assms(2,3) unfolding hosts_cases[OF assms(1)] broadcast_address_eq[OF assms(1)]
  by auto

lemma hosts_inside:
  assumes "IPv4Network s = Inr net" "x \<in> set (hosts net)"
  shows "network_address net \<le> x \<and> x \<le> broadcast_address net"
proof -
  have "(1::int) \<le> 2 ^ host_bits net" by simp
  moreover have "prefixlen net = 31 \<Longrightarrow> host_bits net = 1" by (simp add: host_bits_def)
  ultimately show ?thesis
    using assms(2) unfolding hosts_cases[OF assms(1)] broadcast_address_eq[OF assms(1)]
    by (auto split: if_splits)
qed

lemma block_member_masks_to_network:
  assumes "IPv4Network s = Inr net"
    and "network_address net \<le> x" "x \<le> broadcast_address net"
  shows "x AND netmask net = network_address net"
proof -
  let ?k = "host_bits net" and ?n = "network_address net"
  note props = IPv4Network_props[OF assms(1)]
  note rng = network_address_range[OF assms(1)]
  from assms(2,3) rng have x: "0 \<le> x" "x < 2 ^ 32" by simp_all
  have d: "0 \<le> x - ?n" "x - ?n < 2 ^ ?k"
    using assms(2,3) unfolding broadcast_address_eq[OF assms(1)] by simp_all
  have "x mod 2 ^ ?k = (?n + (x - ?n)) mod 2 ^ ?k" by simp
  also have "\<dots> = (x - ?n) mod 2 ^ ?k"
    using rng(3) by (metis add_0 mod_add_left_eq)
  also have "\<dots> = x - ?n" using d by simp
  finally have "x - x mod 2 ^ ?k = ?n" by simp
  then show ?thesis
    using network_as_multiple[OF props(1,2) x] props(3) by (simp add: host_bits_def)
qed

lemma random_choice_mem: "xs \<noteq> [] \<Longrightarrow> random_choice r xs \<in> set xs"
  by (simp add: random_choice_def)

lemma generate_random_ip_success:
  assumes "validate_subnet subnet" "IPv4Network subnet = Inr net"
  shows "generate_random_ip r subnet g =
           (Inr (string_from_ip_int (random_choice r (hosts net))),
            g\<lparr>history := history g @ [(subnet, string_from_ip_int (random_choice r (hosts net)))]\<rparr>)"
  using assms hosts_nonempty[OF assms(2)] by (simp add: generate_random_ip_def Let_def)

lemma byte_step:
  fixes q d :: int
  assumes "0 \<le> d" "d < 256"
  shows "(q * 256 + d) div 256 = q" "(q * 256 + d) mod 256 = d"
  using assms by simp_all

lemma bytes_of_sum:
  fixes a b c d :: int
  assumes "0 \<le> b" "b < 256" "0 \<le> c" "c < 256" "0 \<le> d" "d < 256"
  defines "x \<equiv> a * 2 ^ 24 + b * 2 ^ 16 + c * 2 ^ 8 + d"
  shows "x mod 256 = d" "x div 2 ^ 8 mod 256 = c" "x div 2 ^ 16 mod 256 = b" "x div 2 ^ 24 = a"
proof -
  have x0: "x = (a * 2 ^ 16 + b * 2 ^ 8 + c) * 256 + d" by (simp add: x_def)
  have d1: "x div 256 = a * 2 ^ 16 + b * 2 ^ 8 + c"
    unfolding x0 using assms(5,6) by (rule byte_step)
  have x1: "x div 256 = (a * 2 ^ 8 + b) * 256 + c" unfolding d1 by simp
  have d2: "x div 256 div 256 = a * 2 ^ 8 + b"
    unfolding x1 using assms(3,4) by (rule byte_step)
  have x2: "x div 256 div 256 = a * 256 + b" unfolding d2 by simp
  have d3: "x div 256 div 256 div 256 = a"
    unfolding x2 using assms(1,2) by (rule byte_step)
  have e16: "x div 2 ^ 16 = x div 256 div 256"
    by (simp add: div_mult2_eq')
  have e24: "x div 2 ^ 24 = x div 256 div 256 div 256"
    by (simp add: div_mult2_eq')
  show "x mod 256 = d" unfolding x0 using assms(5,6) by (rule byte_step)
  show "x div 2 ^ 8 mod 256 = c" using byte_step(2)[OF assms(3,4), of "a * 2 ^ 8 + b"] x1 by simp
  show "x div 2 ^ 16 mod 256 = b" unfolding e16 x2 using assms(1,2) by (rule byte_step)
  show "x div 2 ^ 24 = a" unfolding e24 by (rule d3)
qed

lemma string_from_ip_int_eq:
  "string_from_ip_int a =
     str_nat (nat (a div 2 ^ 24 mod 256)) @ ''.'' @ str_nat (nat (a div 2 ^ 16 mod 256)) @ ''.''
     @ str_nat (nat (a div 2 ^ 8 mod 256)) @ ''.'' @ str_nat (nat (a mod 256))"
  by (simp add: string_from_ip_int_def to_bytes_big4_def)

subsection \<open>The format check and the lexical shape\<close>

lemma repeat_zero_mem: "st \<in> set (repeat f 0 hi st)"
  by (cases hi) simp_all

lemma repeat_step_mem:
  assumes "st1 \<in> set (f st)" "st2 \<in> set (repeat f (lo - 1) hi st1)"
  shows "st2 \<in> set (repeat f lo (Suc hi) st)"
  using assms by auto

lemma repeat_digits_mem:
  "list_all is_digit u \<Longrightarrow> lo \<le> length u \<Longrightarrow> length u \<le> hi \<Longrightarrow>
   (n + length u, t) \<in> set (repeat (rmatch Digit) lo hi (n, u @ t))"
proof (induction u arbitrary: lo hi n)
  case Nil
  then show ?case by (simp add: repeat_zero_mem)
next
  case (Cons c u)
  from Cons.prems(3) obtain hi' where hi: "hi = Suc hi'" by (cases hi) auto
  have first: "(Suc n, u @ t) \<in> set (rmatch Digit (n, (c # u) @ t))"
    using Cons.prems(1) by simp
  have "(Suc n + length u, t) \<in> set (repeat (rmatch Digit) (lo - 1) hi' (Suc n, u @ t))"
    using Cons.prems hi by (intro Cons.IH) auto
  with first show ?case unfolding hi
    by (intro repeat_step_mem[where ?st1.0 = "(Suc n, u @ t)"]) simp_all
qed

lemma digit_group_mem:
  assumes "digit_group lo hi u"
  shows "(n + length u, t) \<in> set (rmatch (Repeat Digit lo hi) (n, u @ t))"
  using assms unfolding digit_group_def
  by (simp only: rmatch.simps(6)) (rule repeat_digits_mem; simp)

lemma seq_mem:
  assumes "st1 \<in> set (rmatch a st)" "st2 \<in> set (rmatch b st1)"
  shows "st2 \<in> set (rmatch (Seq a b) st)"
  using assms by auto

lemma lit_mem: "(Suc n, t) \<in> set (rmatch (Lit x) (n, x # t))"
  by simp

lemma group_dot_mem:
  assumes "digit_group 1 3 u"
  shows "(Suc (n + length u), t)
           \<in> set (rmatch (Seq (Repeat Digit 1 3) (Lit CHR ''.'')) (n, u @ ''.'' @ t))"
proof (rule seq_mem)
  show "(n + length u, ''.'' @ t) \<in> set (rmatch (Repeat Digit 1 3) (n, u @ ''.'' @ t))"
    using assms by (rule digit_group_mem)
  show "(Suc (n + length u), t) \<in> set (rmatch (Lit CHR ''.'') (n + length u, ''.'' @ t))"
    by simp
qed

lemma repeat_3_3_mem:
  assumes "st1 \<in> set (f st0)" "st2 \<in> set (f st1)" "st3 \<in> set (f st2)"
  shows "st3 \<in> set (repeat f 3 3 st0)"
proof -
  have "st3 \<in> set (repeat f (Suc (Suc (Suc 0))) (Suc (Suc (Suc 0))) st0)"
    using assms by auto
  then show ?thesis by (simp only: numeral_3_eq_3)
qed

lemma subnet_pattern_matches:
  assumes "digit_group 1 3 a" "digit_group 1 3 b" "digit_group 1 3 c" "digit_group 1 3 d"
    and "digit_group 1 2 p" and tail: "tail = [] \<or> tail = [CHR 0x0A]"
  shows "re_match subnet_pattern (cidr_string a b c d p @ tail)"
proof -
  let ?grp = "Seq (Repeat Digit 1 3) (Lit CHR ''.'')"
  let ?s3 = "d @ ''/'' @ p @ tail"
  let ?s2 = "c @ ''.'' @ ?s3"
  let ?s1 = "b @ ''.'' @ ?s2"
  let ?s0 = "a @ ''.'' @ ?s1"
  let ?n1 = "Suc (0 + length a)"
  let ?n2 = "Suc (?n1 + length b)"
  let ?n3 = "Suc (?n2 + length c)"
  let ?n4 = "?n3 + length d"
  let ?n5 = "Suc ?n4 + length p"
  have s: "cidr_string a b c d p @ tail = ?s0" by (simp add: cidr_string_def)
  have g1: "(?n1, ?s1) \<in> set (rmatch ?grp (0, ?s0))"
    using assms(1) by (rule group_dot_mem)
  have g2: "(?n2, ?s2) \<in> set (rmatch ?grp (?n1, ?s1))"
    using assms(2) by (rule group_dot_mem)
  have g3: "(?n3, ?s3) \<in> set (rmatch ?grp (?n2, ?s2))"
    using assms(3) by (rule group_dot_mem)
  have groups: "(?n3, ?s3) \<in> set (rmatch (Repeat ?grp 3 3) (0, ?s0))"
    unfolding rmatch.simps(6) using g1 g2 g3 by (rule repeat_3_3_mem)
  have g4: "(?n4, ''/'' @ p @ tail) \<in> set (rmatch (Repeat Digit 1 3) (?n3, ?s3))"
    using assms(4) by (rule digit_group_mem)
  have slash: "(Suc ?n4, p @ tail) \<in> set (rmatch (Lit CHR ''/'') (?n4, ''/'' @ p @ tail))"
    by simp
  have g5: "(?n5, tail) \<in> set (rmatch (Repeat Digit 1 2) (Suc ?n4, p @ tail))"
    using assms(5) by (rule digit_group_mem)
  have eol: "(?n5, tail) \<in> set (rmatch Eol (?n5, tail))"
    using tail by auto
  have bol: "(0, ?s0) \<in> set (rmatch Bol (0, ?s0))" by simp
  have "(?n5, tail) \<in> set (rmatch subnet_pattern (0, ?s0))"
    unfolding subnet_pattern_def
    by (rule seq_mem[OF bol] seq_mem[OF groups] seq_mem[OF g4] seq_mem[OF slash] seq_mem[OF g5] eol)+
  then show ?thesis unfolding re_match_def s by auto
qed


lemma repeat_digits_elim:
  "st' \<in> set (repeat (rmatch Digit) lo hi (n, s)) \<Longrightarrow>
   \<exists>u. s = u @ snd st' \<and> fst st' = n + length u \<and> list_all is_digit u
       \<and> lo \<le> length u \<and> length u \<le> hi"
proof (induction hi arbitrary: lo n s)
  case 0
  then show ?case by (auto split: if_splits)
next
  case (Suc hi)
  from Suc.prems consider
      (more) st1 where "st1 \<in> set (rmatch Digit (n, s))"
        "st' \<in> set (repeat (rmatch Digit) (lo - 1) hi st1)"
    | (stop) "lo = 0" "st' = (n, s)"
    by (auto split: if_splits)
  then show ?case
  proof cases
    case more
    from more(1) obtain c cs where s: "s = c # cs" and c: "is_digit c" and st1: "st1 = (Suc n, cs)"
      by (auto split: list.splits if_splits)
    from Suc.IH[OF more(2)[unfolded st1]] obtain u where
        u: "cs = u @ snd st'" "fst st' = Suc n + length u" "list_all is_digit u"
        "lo - 1 \<le> length u" "length u \<le> hi"
      by blast
    show ?thesis
      by (rule exI[of _ "c # u"]) (use s c u in auto)
  next
    case stop
    then show ?thesis by (intro exI[of _ "[]"]) simp
  qed
qed

lemma digit_group_elim:
  assumes "st' \<in> set (rmatch (Repeat Digit lo hi) st)"
  obtains u where "digit_group lo hi u" "snd st = u @ snd st'" "fst st' = fst st + length u"
proof -
  from assms have "st' \<in> set (repeat (rmatch Digit) lo hi (fst st, snd st))"
    by (simp only: rmatch.simps(6) prod.collapse)
  from repeat_digits_elim[OF this] that show thesis
    unfolding digit_group_def by blast
qed

lemma lit_elim:
  assumes "st' \<in> set (rmatch (Lit x) (n, s))"
  shows "s = x # snd st' \<and> fst st' = Suc n"
  using assms by (auto split: list.splits if_splits)

lemma seq_elim:
  assumes "st2 \<in> set (rmatch (Seq a b) st)"
  obtains st1 where "st1 \<in> set (rmatch a st)" "st2 \<in> set (rmatch b st1)"
  using assms by auto

lemma group_dot_elim:
  assumes "st' \<in> set (rmatch (Seq (Repeat Digit 1 3) (Lit CHR ''.'')) st)"
  obtains u where "digit_group 1 3 u" "snd st = u @ ''.'' @ snd st'"
proof -
  from assms obtain st1 where 1: "st1 \<in> set (rmatch (Repeat Digit 1 3) st)"
      and 2: "st' \<in> set (rmatch (Lit CHR ''.'') st1)"
    by (rule seq_elim)
  from 1 obtain u where u: "digit_group 1 3 u" "snd st = u @ snd st1"
    by (rule digit_group_elim)
  from 2 lit_elim[of st' "CHR ''.''" "fst st1" "snd st1"]
  have "snd st1 = CHR ''.'' # snd st'" by simp
  with u that show thesis by simp
qed

lemma repeat_3_3_elim:
  assumes "st3 \<in> set (repeat f 3 3 st0)"
  obtains st1 st2 where "st1 \<in> set (f st0)" "st2 \<in> set (f st1)" "st3 \<in> set (f st2)"
proof -
  from assms have "st3 \<in> set (repeat f (Suc (Suc (Suc 0))) (Suc (Suc (Suc 0))) st0)"
    by (simp only: numeral_3_eq_3)
  then show thesis using that by auto
qed

lemma subnet_pattern_elim:
  assumes "re_match subnet_pattern s"
  shows "\<exists>a b c d p tail. s = cidr_string a b c d p @ tail
           \<and> digit_group 1 3 a \<and> digit_group 1 3 b \<and> digit_group 1 3 c \<and> digit_group 1 3 d
           \<and> digit_group 1 2 p \<and> (tail = [] \<or> tail = [CHR 0x0A])"
proof -
  let ?grp = "Seq (Repeat Digit 1 3) (Lit CHR ''.'')"
  from assms obtain fin where "fin \<in> set (rmatch subnet_pattern (0, s))"
    unfolding re_match_def by (cases "rmatch subnet_pattern (0, s)") auto
  then obtain t0 t3 t4 t5 t6 where
      bol: "t0 \<in> set (rmatch Bol (0, s))"
      and groups: "t3 \<in> set (rmatch (Repeat ?grp 3 3) t0)"
      and g4: "t4 \<in> set (rmatch (Repeat Digit 1 3) t3)"
      and slash: "t5 \<in> set (rmatch (Lit CHR ''/'') t4)"
      and g5: "t6 \<in> set (rmatch (Repeat Digit 1 2) t5)"
      and eol: "fin \<in> set (rmatch Eol t6)"
    unfolding subnet_pattern_def by (elim seq_elim)
  from bol have t0: "t0 = (0, s)" by (auto split: if_splits)
  from groups obtain t1 t2 where g1: "t1 \<in> set (rmatch ?grp (0, s))"
      and g2: "t2 \<in> set (rmatch ?grp t1)" and g3: "t3 \<in> set (rmatch ?grp t2)"
    unfolding t0 rmatch.simps(6) by (rule repeat_3_3_elim)
  from g1 obtain a where a: "digit_group 1 3 a" "s = a @ ''.'' @ snd t1"
    by (rule group_dot_elim) simp
  from g2 obtain b where b: "digit_group 1 3 b" "snd t1 = b @ ''.'' @ snd t2"
    by (rule group_dot_elim)
  from g3 obtain c where c: "digit_group 1 3 c" "snd t2 = c @ ''.'' @ snd t3"
    by (rule group_dot_elim)
  from g4 obtain d where d: "digit_group 1 3 d" "snd t3 = d @ snd t4"
    by (rule digit_group_elim)
  from slash have sl: "snd t4 = CHR ''/'' # snd t5"
    using lit_elim[of t5 "CHR ''/''" "fst t4" "snd t4"] by simp
  from g5 obtain p where p: "digit_group 1 2 p" "snd t5 = p @ snd t6"
    by (rule digit_group_elim)
  from eol have tail: "snd t6 = [] \<or> snd t6 = [CHR 0x0A]"
    by (auto split: if_splits)
  have "s = cidr_string a b c d p @ snd t6"
    unfolding cidr_string_def using a(2) b(2) c(2) d(2) sl p(2) by simp
  with a(1) b(1) c(1) d(1) p(1) tail show ?thesis by blast
qed

lemma validate_subnet_iff:
  "validate_subnet s \<longleftrightarrow> lexical_shape s \<or> (\<exists>t. s = t @ [CHR 0x0A] \<and> lexical_shape t)"
proof
  assume "validate_subnet s"
  then have "re_match subnet_pattern s" by (simp add: validate_subnet_def)
  from subnet_pattern_elim[OF this] obtain a b c d p tail where
      s: "s = cidr_string a b c d p @ tail"
      and g: "digit_group 1 3 a" "digit_group 1 3 b" "digit_group 1 3 c" "digit_group 1 3 d"
        "digit_group 1 2 p"
      and tail: "tail = [] \<or> tail = [CHR 0x0A]"
    by blast
  from g have "lexical_shape (cidr_string a b c d p)"
    unfolding lexical_shape_def by blast
  with s tail show "lexical_shape s \<or> (\<exists>t. s = t @ [CHR 0x0A] \<and> lexical_shape t)"
    by auto
next
  assume "lexical_shape s \<or> (\<exists>t. s = t @ [CHR 0x0A] \<and> lexical_shape t)"
  then show "validate_subnet s"
  proof
    assume "lexical_shape s"
    then obtain a b c d p where s: "s = cidr_string a b c d p @ []"
        and g: "digit_group 1 3 a" "digit_group 1 3 b" "digit_group 1 3 c" "digit_group 1 3 d"
          "digit_group 1 2 p"
      unfolding lexical_shape_def by auto
    from subnet_pattern_matches[OF g, of "[]"] show ?thesis
      unfolding s validate_subnet_def by simp
  next
    assume "\<exists>t. s = t @ [CHR 0x0A] \<and> lexical_shape t"
    then obtain a b c d p where s: "s = cidr_string a b c d p @ [CHR 0x0A]"
        and g: "digit_group 1 3 a" "digit_group 1 3 b" "digit_group 1 3 c" "digit_group 1 3 d"
          "digit_group 1 2 p"
      unfolding lexical_shape_def by auto
    from subnet_pattern_matches[OF g, of "[CHR 0x0A]"] show ?thesis
      unfolding s validate_subnet_def by simp
  qed
qed

subsection \<open>Parsing a string of the lexical shape\<close>

lemma split_on_nonempty: "split_on sep s \<noteq> []"
  by (induction s) (auto split: list.splits)

lemma split_on_no_sep: "sep \<notin> set p \<Longrightarrow> split_on sep p = [p]"
  by (induction p) auto

lemma split_on_append: "sep \<notin> set q \<Longrightarrow> split_on sep (q @ sep # rest) = q # split_on sep rest"
  by (induction q) (auto split: list.splits simp add: split_on_nonempty)

lemma is_digit_not_punct:
  "is_digit c \<Longrightarrow> c \<noteq> CHR ''.'' \<and> c \<noteq> CHR ''/'' \<and> c \<noteq> CHR 0x0A"
  by (auto simp add: is_digit_def)

lemma digits_no_punct:
  assumes "list_all is_digit g"
  shows "CHR ''.'' \<notin> set g" "CHR ''/'' \<notin> set g" "CHR 0x0A \<notin> set g"
  using assms is_digit_not_punct by (auto simp add: list_all_iff)

lemma digit_group_props:
  assumes "digit_group lo hi g"
  shows "list_all is_digit g" "lo \<le> length g" "length g \<le> hi"
    "CHR ''.'' \<notin> set g" "CHR ''/'' \<notin> set g" "CHR 0x0A \<notin> set g"
  using assms digits_no_punct[of g] by (simp_all add: digit_group_def)

lemma digit_group_nonempty: "digit_group 1 hi g \<Longrightarrow> g \<noteq> []"
  by (auto simp add: digit_group_def)

lemma split_dotted_quad:
  assumes "digit_group 1 3 a" "digit_group 1 3 b" "digit_group 1 3 c" "digit_group 1 3 d"
  shows "split_on CHR ''.'' (a @ ''.'' @ b @ ''.'' @ c @ ''.'' @ d) = [a, b, c, d]"
  using digit_group_props(4)[OF assms(1)] digit_group_props(4)[OF assms(2)]
    digit_group_props(4)[OF assms(3)] digit_group_props(4)[OF assms(4)]
  by (simp add: split_on_append split_on_no_sep)

lemma IPv4Address_dotted_quad:
  assumes "digit_group 1 3 a" "digit_group 1 3 b" "digit_group 1 3 c" "digit_group 1 3 d"
  shows "IPv4Address (a @ ''.'' @ b @ ''.'' @ c @ ''.'' @ d) =
           (case parse_octets [a, b, c, d] of
              Inl e \<Rightarrow> Inl (BadOctet e)
            | Inr bs \<Rightarrow> Inr (from_bytes_big bs))"
proof -
  have "CHR ''/'' \<notin> set (a @ ''.'' @ b @ ''.'' @ c @ ''.'' @ d)"
    using digit_group_props(5)[OF assms(1)] digit_group_props(5)[OF assms(2)]
      digit_group_props(5)[OF assms(3)] digit_group_props(5)[OF assms(4)]
    by simp
  moreover have "a @ ''.'' @ b @ ''.'' @ c @ ''.'' @ d \<noteq> []" by simp
  ultimately show ?thesis
    unfolding IPv4Address_def ip_int_from_string_def split_dotted_quad[OF assms]
    by (simp add: Let_def)
qed

lemma split_addr_prefix_cidr_string:
  assumes "digit_group 1 3 a" "digit_group 1 3 b" "digit_group 1 3 c" "digit_group 1 3 d"
    and "CHR ''/'' \<notin> set q"
  shows "split_addr_prefix (a @ ''.'' @ b @ ''.'' @ c @ ''.'' @ d @ ''/'' @ q)
         = Inr (a @ ''.'' @ b @ ''.'' @ c @ ''.'' @ d, Some q)"
proof -
  let ?ad = "a @ ''.'' @ b @ ''.'' @ c @ ''.'' @ d"
  have "CHR ''/'' \<notin> set ?ad"
    using digit_group_props(5)[OF assms(1)] digit_group_props(5)[OF assms(2)]
      digit_group_props(5)[OF assms(3)] digit_group_props(5)[OF assms(4)]
    by simp
  then have "split_on CHR ''/'' (?ad @ CHR ''/'' # q) = ?ad # split_on CHR ''/'' q"
    by (rule split_on_append)
  also have "split_on CHR ''/'' q = [q]"
    using assms(5) by (rule split_on_no_sep)
  finally have "split_on CHR ''/'' (?ad @ CHR ''/'' # q) = [?ad, q]" .
  then show ?thesis by (simp add: split_addr_prefix_def Let_def)
qed

lemma IPv4Network_cidr_string:
  assumes "digit_group 1 3 a" "digit_group 1 3 b" "digit_group 1 3 c" "digit_group 1 3 d"
    and "CHR ''/'' \<notin> set q"
  shows "IPv4Network (cidr_string a b c d [] @ q) =
           (case parse_octets [a, b, c, d] of
              Inl e \<Rightarrow> Inl (BadOctet e)
            | Inr bs \<Rightarrow>
                (case make_netmask (Some q) of
                   Inl e \<Rightarrow> Inl e
                 | Inr (nm, plen) \<Rightarrow>
                     Inr \<lparr>network_address = from_bytes_big bs AND nm, netmask = nm,
                          prefixlen = plen, addr = from_bytes_big bs\<rparr>))"
proof -
  let ?ad = "a @ ''.'' @ b @ ''.'' @ c @ ''.'' @ d"
  have s: "cidr_string a b c d [] @ q = a @ ''.'' @ b @ ''.'' @ c @ ''.'' @ d @ ''/'' @ q"
    by (simp add: cidr_string_def)
  have "IPv4Network (cidr_string a b c d [] @ q) =
          (case IPv4Address ?ad of
             Inl e \<Rightarrow> Inl e
           | Inr packed \<Rightarrow>
               (case make_netmask (Some q) of
                  Inl e \<Rightarrow> Inl e
                | Inr (nm, plen) \<Rightarrow>
                    Inr \<lparr>network_address =
                           (if packed AND nm \<noteq> packed then packed AND nm else packed),
                         netmask = nm, prefixlen = plen, addr = packed\<rparr>))"
    by (simp only: s IPv4Network_def split_addr_prefix_cidr_string[OF assms]
        sum.case prod.case)
  then show ?thesis
    unfolding IPv4Address_dotted_quad[OF assms(1-4)]
    by (auto split: sum.splits prod.splits)
qed

lemma cidr_string_append: "cidr_string a b c d p @ tail = cidr_string a b c d [] @ (p @ tail)"
  by (simp add: cidr_string_def)

lemma parse_octet_Inr_value: "parse_octet g = Inr n \<Longrightarrow> n = int_of_digits g \<and> n \<le> 255"
  by (auto simp add: parse_octet_def Let_def split: if_splits)

lemma parse_octets4_bounds:
  assumes "parse_octets [a, b, c, d] = Inr bs"
  shows "int_of_digits a \<le> 255 \<and> int_of_digits b \<le> 255 \<and> int_of_digits c \<le> 255
         \<and> int_of_digits d \<le> 255"
  using assms by (auto split: sum.splits dest!: parse_octet_Inr_value)

lemma ip_int_from_string_no_dots:
  assumes "CHR ''.'' \<notin> set q"
  shows "\<exists>e. ip_int_from_string q = Inl e"
  using assms by (simp add: ip_int_from_string_def split_on_no_sep Let_def)

lemma make_netmask_not_prefix:
  assumes "CHR ''.'' \<notin> set q" "prefix_from_prefix_string q = Inl e"
  shows "make_netmask (Some q) = Inl (InvalidNetmask q)"
proof -
  from ip_int_from_string_no_dots[OF assms(1)] obtain e' where "ip_int_from_string q = Inl e'" ..
  then have "prefix_from_ip_string q = Inl (InvalidNetmask q)"
    by (simp add: prefix_from_ip_string_def)
  with assms(2) show ?thesis by (simp add: make_netmask_def)
qed

lemma make_netmask_prefix_too_big:
  assumes "digit_group 1 2 p" "32 < int_of_digits p"
  shows "make_netmask (Some p) = Inl (InvalidNetmask p)"
proof (rule make_netmask_not_prefix)
  show "CHR ''.'' \<notin> set p" using assms(1) by (rule digit_group_props)
  show "prefix_from_prefix_string p = Inl (InvalidNetmask p)"
    using assms(2) by (simp add: prefix_from_prefix_string_def Let_def max_prefixlen_def)
qed

lemma make_netmask_trailing_newline:
  assumes "digit_group 1 2 p"
  shows "make_netmask (Some (p @ [CHR 0x0A])) = Inl (InvalidNetmask (p @ [CHR 0x0A]))"
proof (rule make_netmask_not_prefix)
  show "CHR ''.'' \<notin> set (p @ [CHR 0x0A])"
    using digit_group_props(4)[OF assms] by simp
  have "\<not> is_digit (CHR 0x0A)" by (simp add: is_digit_def)
  then show "prefix_from_prefix_string (p @ [CHR 0x0A]) = Inl (InvalidNetmask (p @ [CHR 0x0A]))"
    by (simp add: prefix_from_prefix_string_def isascii_isdigit_def)
qed


lemma generate_random_ip_parse_error:
  assumes "validate_subnet subnet" "IPv4Network subnet = Inl e"
  shows "generate_random_ip r subnet g = (Inl (InvalidSubnet e), g)"
  using assms by (simp add: generate_random_ip_def)

lemma IPv4Network_out_of_bounds:
  assumes "digit_group 1 3 a" "digit_group 1 3 b" "digit_group 1 3 c" "digit_group 1 3 d"
    and "digit_group 1 2 p"
    and "255 < int_of_digits a \<or> 255 < int_of_digits b \<or> 255 < int_of_digits c
         \<or> 255 < int_of_digits d \<or> 32 < int_of_digits p"
  shows "\<exists>e. IPv4Network (cidr_string a b c d p) = Inl e"
proof (cases "parse_octets [a, b, c, d]")
  case (Inl e)
  then show ?thesis
    using IPv4Network_cidr_string[OF assms(1-4) digit_group_props(5)[OF assms(5)]]
    by (simp add: cidr_string_def)
next
  case (Inr bs)
  from parse_octets4_bounds[OF this] assms(6) have "32 < int_of_digits p" by auto
  from make_netmask_prefix_too_big[OF assms(5) this] Inr show ?thesis
    using IPv4Network_cidr_string[OF assms(1-4) digit_group_props(5)[OF assms(5)]]
    by (simp add: cidr_string_def)
qed

lemma lexical_shape_last_digit:
  assumes "lexical_shape s"
  shows "s \<noteq> [] \<and> is_digit (last s)"
proof -
  from assms obtain a b c d p where s: "s = cidr_string a b c d p" and p: "digit_group 1 2 p"
    unfolding lexical_shape_def by blast
  from p have ne: "p \<noteq> []" by (rule digit_group_nonempty)
  then have "last s = last p" unfolding s cidr_string_def by simp
  moreover have "is_digit (last p)"
    using digit_group_props(1)[OF p] ne by (simp add: list_all_iff)
  ultimately show ?thesis using ne s by (simp add: cidr_string_def)
qed

subsection \<open>Printing and parsing again\<close>

lemma digit_char_props:
  assumes "d < 10"
  shows "is_digit (digit_char d)" "digit_val (digit_char d) = int d"
    "digit_char d = CHR ''0'' \<longleftrightarrow> d = 0"
proof -
  from assms consider "d = 0" | "d = 1" | "d = 2" | "d = 3" | "d = 4" | "d = 5" | "d = 6"
    | "d = 7" | "d = 8" | "d = 9"
    by (auto simp add: numeral_eq_Suc less_Suc_eq)
  then have "is_digit (digit_char d) \<and> digit_val (digit_char d) = int d
      \<and> (digit_char d = CHR ''0'' \<longleftrightarrow> d = 0)"
    by cases (simp_all add: digit_char_def is_digit_def digit_val_def)
  then show "is_digit (digit_char d)" "digit_val (digit_char d) = int d"
    "digit_char d = CHR ''0'' \<longleftrightarrow> d = 0"
    by simp_all
qed

lemma str_nat_digits: "list_all is_digit (str_nat n)"
proof (induction n rule: str_nat.induct)
  case (1 n)
  show ?case
  proof (cases "n < 10")
    case True
    then show ?thesis by (simp add: str_nat.simps[of n] digit_char_props)
  next
    case False
    with 1 show ?thesis by (simp add: str_nat.simps[of n] digit_char_props)
  qed
qed

lemma str_nat_nonempty: "str_nat n \<noteq> []"
  by (simp add: str_nat.simps[of n])

lemma int_of_digits_snoc: "int_of_digits (s @ [c]) = 10 * int_of_digits s + digit_val c"
  by (simp add: int_of_digits_def)

lemma int_of_digits_str_nat: "int_of_digits (str_nat n) = int n"
proof (induction n rule: str_nat.induct)
  case (1 n)
  show ?case
  proof (cases "n < 10")
    case True
    then show ?thesis
      by (simp add: str_nat.simps[of n] int_of_digits_def digit_char_props)
  next
    case False
    have "int_of_digits (str_nat n) = 10 * int (n div 10) + int (n mod 10)"
      using False 1 by (simp add: str_nat.simps[of n] int_of_digits_snoc digit_char_props)
    also have "\<dots> = int (10 * (n div 10) + n mod 10)" by (simp only: of_nat_add of_nat_mult of_nat_numeral)
    also have "\<dots> = int n" by simp
    finally show ?thesis .
  qed
qed

lemma hd_str_nat: "hd (str_nat n) = CHR ''0'' \<longleftrightarrow> n = 0"
proof (induction n rule: str_nat.induct)
  case (1 n)
  show ?case
  proof (cases "n < 10")
    case True
    then show ?thesis by (simp add: str_nat.simps[of n] digit_char_props)
  next
    case False
    then have "n div 10 \<noteq> 0" by simp
    with False 1 show ?thesis
      by (simp add: str_nat.simps[of n] str_nat_nonempty)
  qed
qed

lemma str_nat_eq_zero: "str_nat n = ''0'' \<longleftrightarrow> n = 0"
proof
  assume "str_nat n = ''0''"
  then have "hd (str_nat n) = CHR ''0''" by simp
  then show "n = 0" by (simp add: hd_str_nat)
next
  assume "n = 0"
  then show "str_nat n = ''0''" by (simp add: str_nat.simps[of 0] digit_char_def)
qed

lemma length_str_nat:
  "n < 10 \<Longrightarrow> length (str_nat n) = 1"
  "n < 100 \<Longrightarrow> length (str_nat n) \<le> 2"
  "n < 1000 \<Longrightarrow> length (str_nat n) \<le> 3"
proof -
  show 1: "length (str_nat n) = 1" if "n < 10" for n
    using that by (simp add: str_nat.simps[of n])
  show 2: "length (str_nat n) \<le> 2" if "n < 100" for n
    using that 1[of "n div 10"] by (simp add: str_nat.simps[of n])
  show "length (str_nat n) \<le> 3" if "n < 1000"
    using that 2[of "n div 10"] by (simp add: str_nat.simps[of n])
qed

lemma digit_group_str_nat:
  "n < 1000 \<Longrightarrow> digit_group 1 3 (str_nat n)"
  "n < 100 \<Longrightarrow> digit_group 1 2 (str_nat n)"
proof -
  have "1 \<le> length (str_nat n)"
    using str_nat_nonempty[of n] by (cases "str_nat n") simp_all
  then show "n < 1000 \<Longrightarrow> digit_group 1 3 (str_nat n)" "n < 100 \<Longrightarrow> digit_group 1 2 (str_nat n)"
    using length_str_nat(2,3)[of n] by (simp_all add: digit_group_def str_nat_digits)
qed

lemma parse_octet_str_nat:
  assumes "n \<le> 255"
  shows "parse_octet (str_nat n) = Inr (int n)"
proof -
  have "length (str_nat n) \<le> 3" using assms by (intro length_str_nat) simp
  then show ?thesis
    using assms
    by (simp add: parse_octet_def isascii_isdigit_def str_nat_nonempty str_nat_digits
        int_of_digits_str_nat hd_str_nat str_nat_eq_zero Let_def, arith)
qed

lemma prefix_from_prefix_string_str_nat:
  assumes "0 \<le> p" "p \<le> 32"
  shows "prefix_from_prefix_string (str_nat (nat p)) = Inr p"
  using assms
  by (simp add: prefix_from_prefix_string_def isascii_isdigit_def str_nat_nonempty str_nat_digits
      int_of_digits_str_nat Let_def max_prefixlen_def)

lemma to_bytes_big4_range:
  assumes "0 \<le> x"
  shows "\<forall>b \<in> set (to_bytes_big4 x). 0 \<le> b \<and> b \<le> 255"
proof -
  have "0 \<le> y mod 256 \<and> y mod 256 \<le> 255" for y :: int
    using pos_mod_bound[of 256 y] pos_mod_sign[of 256 y] by linarith
  then show ?thesis by (simp add: to_bytes_big4_def)
qed

lemma from_bytes_to_bytes:
  assumes "0 \<le> x" "x < 2 ^ 32"
  shows "from_bytes_big (to_bytes_big4 x) = x"
proof -
  have e16: "x div 2 ^ 16 = x div 2 ^ 8 div 2 ^ 8" and e24: "x div 2 ^ 24 = x div 2 ^ 16 div 2 ^ 8"
    by (simp_all add: div_mult2_eq')
  have "x div 2 ^ 24 \<le> (2 ^ 32 - 1) div 2 ^ 24"
    using assms(2) by (intro zdiv_mono1) simp_all
  then have "x div 2 ^ 24 < 256" by simp
  then have top: "x div 2 ^ 24 mod 256 = x div 2 ^ 24"
    using assms(1) by (intro mod_pos_pos_trivial) (simp_all add: pos_imp_zdiv_nonneg_iff)
  have "x = x div 2 ^ 8 * 2 ^ 8 + x mod 256" by simp
  also have "x div 2 ^ 8 = x div 2 ^ 16 * 2 ^ 8 + x div 2 ^ 8 mod 256"
    unfolding e16 by simp
  also have "x div 2 ^ 16 = x div 2 ^ 24 * 2 ^ 8 + x div 2 ^ 16 mod 256"
    unfolding e24 by simp
  finally have "x = x div 2 ^ 24 * 2 ^ 24 + x div 2 ^ 16 mod 256 * 2 ^ 16
      + x div 2 ^ 8 mod 256 * 2 ^ 8 + x mod 256"
    by (simp add: algebra_simps)
  then show ?thesis
    unfolding to_bytes_big4_def from_bytes_big4 top by simp
qed


lemma byte_range:
  "0 \<le> (y::int) mod 256" "y mod 256 \<le> 255" "nat (y mod 256) \<le> 255" "nat (y mod 256) < 1000"
  using pos_mod_bound[of 256 y] pos_mod_sign[of 256 y] by linarith+

lemma parse_octet_byte: "parse_octet (str_nat (nat (y mod 256))) = Inr (y mod 256)"
  using parse_octet_str_nat[OF byte_range(3), of y] byte_range(1)[of y] by simp

lemma parse_octets_to_bytes:
  "parse_octets (map (\<lambda>b. str_nat (nat b)) (to_bytes_big4 x)) = Inr (to_bytes_big4 x)"
  by (simp add: to_bytes_big4_def parse_octet_byte)

lemma string_from_ip_int_as_cidr:
  "string_from_ip_int x @ ''/'' @ q =
     cidr_string (str_nat (nat (x div 2 ^ 24 mod 256))) (str_nat (nat (x div 2 ^ 16 mod 256)))
       (str_nat (nat (x div 2 ^ 8 mod 256))) (str_nat (nat (x mod 256))) [] @ q"
  by (simp add: string_from_ip_int_eq cidr_string_def)

lemma make_netmask_str_nat:
  assumes "0 \<le> p" "p \<le> 32"
  shows "make_netmask (Some (str_nat (nat p))) = Inr (ip_int_from_prefix p, p)"
  using prefix_from_prefix_string_str_nat[OF assms] by (simp add: make_netmask_def)

lemma IPv4Network_canonical:
  assumes "0 \<le> n" "n < 2 ^ 32" "0 \<le> p" "p \<le> 32"
  shows "IPv4Network (string_from_ip_int n @ ''/'' @ str_nat (nat p)) =
           Inr \<lparr>network_address = n AND ip_int_from_prefix p, netmask = ip_int_from_prefix p,
                prefixlen = p, addr = n\<rparr>"
    and "validate_subnet (string_from_ip_int n @ ''/'' @ str_nat (nat p))"
proof -
  let ?a = "str_nat (nat (n div 2 ^ 24 mod 256))" and ?b = "str_nat (nat (n div 2 ^ 16 mod 256))"
  let ?c = "str_nat (nat (n div 2 ^ 8 mod 256))" and ?d = "str_nat (nat (n mod 256))"
  let ?q = "str_nat (nat p)"
  have g: "digit_group 1 3 ?a" "digit_group 1 3 ?b" "digit_group 1 3 ?c" "digit_group 1 3 ?d"
    by (rule digit_group_str_nat, rule byte_range)+
  have "nat p < 100" using assms(4) by simp
  then have gq: "digit_group 1 2 ?q" by (rule digit_group_str_nat)
  have po: "parse_octets [?a, ?b, ?c, ?d] = Inr (to_bytes_big4 n)"
    using parse_octets_to_bytes[of n] by (simp add: to_bytes_big4_def)
  show "IPv4Network (string_from_ip_int n @ ''/'' @ ?q) =
           Inr \<lparr>network_address = n AND ip_int_from_prefix p, netmask = ip_int_from_prefix p,
                prefixlen = p, addr = n\<rparr>"
    unfolding string_from_ip_int_as_cidr
      IPv4Network_cidr_string[OF g digit_group_props(5)[OF gq]] po
      make_netmask_str_nat[OF assms(3,4)]
    by (simp add: from_bytes_to_bytes[OF assms(1,2)])
  have "validate_subnet (cidr_string ?a ?b ?c ?d ?q)"
    using subnet_pattern_matches[OF g gq, of "[]"] by (simp add: validate_subnet_def)
  then show "validate_subnet (string_from_ip_int n @ ''/'' @ ?q)"
    unfolding string_from_ip_int_as_cidr by (simp add: cidr_string_def)
qed

lemma str_network_parses:
  assumes "IPv4Network subnet = Inr net"
  shows "IPv4Network (str_network net) = Inr (net\<lparr>addr := network_address net\<rparr>)"
    and "validate_subnet (str_network net)"
proof -
  note props = IPv4Network_props[OF assms]
  note rng = network_address_range[OF assms]
  have "network_address net \<le> broadcast_address net"
    unfolding broadcast_address_eq[OF assms] by simp
  with rng(2) have lt: "network_address net < 2 ^ 32" by simp
  have idem: "network_address net AND netmask net = network_address net"
    unfolding props(6) by (simp add: and.assoc)
  from IPv4Network_canonical[OF rng(1) lt props(1,2)]
  show "IPv4Network (str_network net) = Inr (net\<lparr>addr := network_address net\<rparr>)"
    and "validate_subnet (str_network net)"
    unfolding str_network_def using idem props(3) by simp_all
qed

lemma hosts_of_canonical:
  assumes "IPv4Network subnet = Inr net"
  shows "hosts (net\<lparr>addr := network_address net\<rparr>) = hosts net"
  unfolding hosts_cases[OF assms] hosts_cases[OF str_network_parses(1)[OF assms]]
  by (simp add: host_bits_def)

lemma IPv4Address_string_from_ip_int:
  assumes "0 \<le> n" "n < 2 ^ 32"
  shows "IPv4Address (string_from_ip_int n) = Inr n"
proof -
  let ?a = "str_nat (nat (n div 2 ^ 24 mod 256))" and ?b = "str_nat (nat (n div 2 ^ 16 mod 256))"
  let ?c = "str_nat (nat (n div 2 ^ 8 mod 256))" and ?d = "str_nat (nat (n mod 256))"
  have g: "digit_group 1 3 ?a" "digit_group 1 3 ?b" "digit_group 1 3 ?c" "digit_group 1 3 ?d"
    by (rule digit_group_str_nat, rule byte_range)+
  have po: "parse_octets [?a, ?b, ?c, ?d] = Inr (to_bytes_big4 n)"
    using parse_octets_to_bytes[of n] by (simp add: to_bytes_big4_def)
  show ?thesis
    unfolding string_from_ip_int_eq IPv4Address_dotted_quad[OF g] po
    by (simp add: from_bytes_to_bytes[OF assms])
qed

subsection \<open>Generated addresses and the host range\<close>

lemma hosts_address_range:
  assumes "IPv4Network s = Inr net" "x \<in> set (hosts net)"
  shows "0 \<le> x" "x < 2 ^ 32"
  using hosts_inside[OF assms] network_address_range(1,2)[OF assms(1)] by simp_all

lemma hosts_in_block:
  assumes "IPv4Network s = Inr net" "x \<in> set (hosts net)"
  shows "in_block net x"
  using hosts_inside[OF assms] unfolding broadcast_address_eq[OF assms(1)] in_block_def
  by simp

lemma hosts_in_spec_host_range:
  assumes "IPv4Network s = Inr net" "prefixlen net \<le> 30" "x \<in> set (hosts net)"
  shows "in_spec_host_range net x"
  using hosts_strictly_inside[OF assms] hosts_in_block[OF assms(1,3)]
  unfolding broadcast_address_eq[OF assms(1)] in_spec_host_range_def
  by simp

lemma generated_entry_in_block_host_range:
  assumes "IPv4Network subnet = Inr net"
  shows "entry_in_block_host_range (subnet, string_from_ip_int (random_choice r (hosts net)))"
proof -
  let ?a = "random_choice r (hosts net)"
  have m: "?a \<in> set (hosts net)"
    using hosts_nonempty[OF assms] by (rule random_choice_mem)
  have rt: "IPv4Address (string_from_ip_int ?a) = Inr ?a"
    using hosts_address_range[OF assms m] by (rule IPv4Address_string_from_ip_int)
  show ?thesis
  proof (cases "prefixlen net \<le> 30")
    case True
    from hosts_in_spec_host_range[OF assms True m] True assms rt show ?thesis
      by (simp add: entry_in_block_host_range_def)
  next
    case False
    from hosts_in_block[OF assms m] False assms rt show ?thesis
      by (simp add: entry_in_block_host_range_def)
  qed
qed

lemma generate_random_ip_preserves_invariant:
  assumes "history_invariant g"
  shows "history_invariant (snd (generate_random_ip r subnet g))"
proof (cases "fst (generate_random_ip r subnet g)")
  case (Inl e)
  with assms show ?thesis by (simp add: generate_random_ip_failure_keeps_state)
next
  case (Inr ip)
  then obtain net where p: "IPv4Network subnet = Inr net"
      and ip: "ip = string_from_ip_int (random_choice r (hosts net))"
    by (auto simp add: generate_random_ip_def Let_def split: if_splits sum.splits)
  have "entry_in_block_host_range (subnet, ip)"
    unfolding ip using p by (rule generated_entry_in_block_host_range)
  with assms show ?thesis
    unfolding generate_random_ip_success_appends[OF Inr] by (simp add: history_invariant_def)
qed

lemma apply_operation_preserves_invariant:
  "history_invariant g \<Longrightarrow> history_invariant (apply_operation c g)"
  by (cases c)
    (simp_all add: generate_random_ip_preserves_invariant, simp add: history_invariant_def clear_history_def)

lemma run_preserves_invariant:
  "history_invariant g \<Longrightarrow> history_invariant (run cs g)"
  by (induction cs arbitrary: g) (simp_all add: apply_operation_preserves_invariant)

section \<open>Generating an address\<close>

text \<open>
  Claim C1. For every subnet string that passes the format check and parses to a network
  of prefix length at most 30, \<open>generate_random_ip\<close> returns, whatever the random draw, a
  string that parses back (\<open>IPv4Address\<close>) to an address \<open>a\<close> of the block
  (\<open>a AND netmask = network_address\<close>) that lies strictly between the network address
  and the broadcast address, that is, in the host range of the specification. For
  \<open>192.168.1.0/24\<close> the result is \<open>192.168.1.k\<close> with \<open>k\<close> from 1 to 254.
\<close>

theorem generate_random_ip_in_host_range:
  "(validate_subnet subnet \<and> IPv4Network subnet = Inr net \<and> prefixlen net \<le> 30 \<longrightarrow>
      (\<exists>ip a. fst (generate_random_ip r subnet g) = Inr ip
           \<and> IPv4Address ip = Inr a
           \<and> ip = string_from_ip_int a
           \<and> a AND netmask net = network_address net
           \<and> network_address net < a \<and> a < broadcast_address net
           \<and> in_spec_host_range net a))
   \<and> (\<exists>k. 1 \<le> k \<and> k \<le> 254
           \<and> fst (generate_random_ip r ''192.168.1.0/24'' g) = Inr (''192.168.1.'' @ str_nat k)
           \<and> IPv4Address (''192.168.1.'' @ str_nat k) = Inr (3232235776 + int k))"
proof -
  have general: "\<exists>ip a. fst (generate_random_ip r' s g') = Inr ip
           \<and> IPv4Address ip = Inr a
           \<and> ip = string_from_ip_int a
           \<and> a AND netmask n = network_address n
           \<and> network_address n < a \<and> a < broadcast_address n
           \<and> in_spec_host_range n a"
    if v: "validate_subnet s" and p: "IPv4Network s = Inr n" and l: "prefixlen n \<le> 30"
    for r' s g' n
  proof -
    let ?a = "random_choice r' (hosts n)"
    have m: "?a \<in> set (hosts n)"
      using hosts_nonempty[OF p] by (rule random_choice_mem)
    have strict: "network_address n < ?a \<and> ?a < broadcast_address n"
      using p l m by (rule hosts_strictly_inside)
    then have msk: "?a AND netmask n = network_address n"
      using block_member_masks_to_network[OF p, of ?a] by simp
    have rt: "IPv4Address (string_from_ip_int ?a) = Inr ?a"
      using hosts_address_range[OF p m] by (rule IPv4Address_string_from_ip_int)
    have rng: "in_spec_host_range n ?a"
      using p l m by (rule hosts_in_spec_host_range)
    have "fst (generate_random_ip r' s g') = Inr (string_from_ip_int ?a)"
      using generate_random_ip_success[OF v p, of r' g'] by simp
    with rt msk strict rng show ?thesis by blast
  qed
  let ?n = "\<lparr>network_address = 3232235776, netmask = 4294967040, prefixlen = 24, addr = 3232235776\<rparr>"
  have v: "validate_subnet ''192.168.1.0/24''" by code_simp
  have p: "IPv4Network ''192.168.1.0/24'' = Inr ?n" by code_simp
  have b: "broadcast_address ?n = 3232236031" by code_simp
  have "prefixlen ?n \<le> 30" by simp
  from general[OF v p this, of r g] obtain a where
      res: "fst (generate_random_ip r ''192.168.1.0/24'' g) = Inr (string_from_ip_int a)"
      and rt: "IPv4Address (string_from_ip_int a) = Inr a"
      and lo: "network_address ?n < a" and hi: "a < broadcast_address ?n"
    by blast
  from lo have lo: "3232235776 < a" by simp
  from hi b have hi: "a < 3232236031" by simp
  define k where "k = nat (a - 3232235776)"
  have a: "a = 192 * 2 ^ 24 + 168 * 2 ^ 16 + 1 * 2 ^ 8 + int k" and k: "1 \<le> k" "k \<le> 254"
      and a': "a = 3232235776 + int k"
    using lo hi by (simp_all add: k_def)
  have bk: "0 \<le> (168::int)" "(168::int) < 256" "0 \<le> (1::int)" "(1::int) < 256"
      "0 \<le> int k" "int k < 256"
    using k by simp_all
  have bytes: "a div 2 ^ 24 = 192" "a div 2 ^ 16 mod 256 = 168" "a div 2 ^ 8 mod 256 = 1"
      "a mod 256 = int k"
    unfolding a by (rule bytes_of_sum[OF bk])+
  have strs: "str_nat 192 = ''192''" "str_nat 168 = ''168''" "str_nat (Suc 0) = ''1''"
    by code_simp+
  have "string_from_ip_int a = str_nat (nat 192) @ ''.'' @ str_nat (nat 168) @ ''.''
      @ str_nat (nat 1) @ ''.'' @ str_nat (nat (int k))"
    unfolding string_from_ip_int_eq bytes by simp
  then have str: "string_from_ip_int a = ''192.168.1.'' @ str_nat k"
    by (simp add: strs)
  have scenario: "\<exists>k. 1 \<le> k \<and> k \<le> 254
      \<and> fst (generate_random_ip r ''192.168.1.0/24'' g) = Inr (''192.168.1.'' @ str_nat k)
      \<and> IPv4Address (''192.168.1.'' @ str_nat k) = Inr (3232235776 + int k)"
  proof (intro exI[of _ k] conjI)
    show "1 \<le> k" "k \<le> 254" by (rule k)+
    show "fst (generate_random_ip r ''192.168.1.0/24'' g) = Inr (''192.168.1.'' @ str_nat k)"
      using res by (simp only: str)
    have "IPv4Address (''192.168.1.'' @ str_nat k) = Inr a"
      using rt by (simp only: str)
    then show "IPv4Address (''192.168.1.'' @ str_nat k) = Inr (3232235776 + int k)"
      by (simp only: a')
  qed
  have "validate_subnet subnet \<and> IPv4Network subnet = Inr net \<and> prefixlen net \<le> 30 \<longrightarrow>
      (\<exists>ip a. fst (generate_random_ip r subnet g) = Inr ip
           \<and> IPv4Address ip = Inr a
           \<and> ip = string_from_ip_int a
           \<and> a AND netmask net = network_address net
           \<and> network_address net < a \<and> a < broadcast_address net
           \<and> in_spec_host_range net a)"
    using general[of subnet net r g] by (intro impI) (elim conjE)
  then show ?thesis using scenario by (rule conjI)
qed

theorem generate_random_ip_in_host_range_witness:
  "validate_subnet ''10.0.0.5/30''
   \<and> IPv4Network ''10.0.0.5/30''
       = Inr \<lparr>network_address = 167772164, netmask = 4294967292, prefixlen = 30, addr = 167772165\<rparr>
   \<and> (30::int) \<le> 30
   \<and> fst (generate_random_ip 1 ''10.0.0.5/30'' init) = Inr ''10.0.0.6''
   \<and> IPv4Address ''10.0.0.6'' = Inr 167772166
   \<and> (\<exists>ip a. fst (generate_random_ip 1 ''10.0.0.5/30'' init) = Inr ip
          \<and> IPv4Address ip = Inr a
          \<and> a AND 4294967292 = 167772164 \<and> 167772164 < a \<and> a < 167772167)"
proof -
  let ?n = "\<lparr>network_address = 167772164, netmask = 4294967292, prefixlen = 30, addr = 167772165\<rparr>"
  have v: "validate_subnet ''10.0.0.5/30''" by code_simp
  have p: "IPv4Network ''10.0.0.5/30'' = Inr ?n" by code_simp
  have b: "broadcast_address ?n = 167772167" by code_simp
  have e: "fst (generate_random_ip 1 ''10.0.0.5/30'' init) = Inr ''10.0.0.6''" by code_simp
  have q: "IPv4Address ''10.0.0.6'' = Inr 167772166" by code_simp
  from generate_random_ip_in_host_range[of "''10.0.0.5/30''" ?n 1 init] v p
  have "\<exists>ip a. fst (generate_random_ip 1 ''10.0.0.5/30'' init) = Inr ip
          \<and> IPv4Address ip = Inr a
          \<and> a AND 4294967292 = 167772164 \<and> 167772164 < a \<and> a < 167772167"
    unfolding b[symmetric] by auto
  with v p e q show ?thesis by simp
qed

text \<open>
  Claim C2, as amended. For a subnet string that passes the format check and parses to a
  /31 or /32 network, \<open>generate_random_ip\<close> does not raise: it returns one of the
  block's addresses (the network or the broadcast address of a /31, which are its two
  addresses; the single address of a /32) and records it in the history. The string
  returned parses back to that address.
\<close>

theorem slash31_32_returns_block_address:
  "validate_subnet subnet \<and> IPv4Network subnet = Inr net
     \<and> (prefixlen net = 31 \<or> prefixlen net = 32) \<longrightarrow>
   (\<exists>a. generate_random_ip r subnet g
          = (Inr (string_from_ip_int a),
             g\<lparr>history := history g @ [(subnet, string_from_ip_int a)]\<rparr>)
        \<and> IPv4Address (string_from_ip_int a) = Inr a
        \<and> in_block net a
        \<and> (a = network_address net \<or> a = broadcast_address net)
        \<and> (if prefixlen net = 32 then broadcast_address net = network_address net
            else broadcast_address net = network_address net + 1))"
proof (intro impI, elim conjE)
  assume v: "validate_subnet subnet" and p: "IPv4Network subnet = Inr net"
    and l: "prefixlen net = 31 \<or> prefixlen net = 32"
  let ?a = "random_choice r (hosts net)"
  have m: "?a \<in> set (hosts net)"
    using hosts_nonempty[OF p] by (rule random_choice_mem)
  have rt: "IPv4Address (string_from_ip_int ?a) = Inr ?a"
    using hosts_address_range[OF p m] by (rule IPv4Address_string_from_ip_int)
  have blk: "in_block net ?a"
    using p m by (rule hosts_in_block)
  have hb: "host_bits net = (if prefixlen net = 32 then 0 else 1)"
    using l by (auto simp add: host_bits_def)
  have b: "if prefixlen net = 32 then broadcast_address net = network_address net
           else broadcast_address net = network_address net + 1"
    unfolding broadcast_address_eq[OF p] hb by simp
  have "?a = network_address net \<or> ?a = broadcast_address net"
    using m l b unfolding hosts_cases[OF p] by (auto split: if_splits)
  with b rt blk generate_random_ip_success[OF v p, of r g] show
    "\<exists>a. generate_random_ip r subnet g
          = (Inr (string_from_ip_int a),
             g\<lparr>history := history g @ [(subnet, string_from_ip_int a)]\<rparr>)
        \<and> IPv4Address (string_from_ip_int a) = Inr a
        \<and> in_block net a
        \<and> (a = network_address net \<or> a = broadcast_address net)
        \<and> (if prefixlen net = 32 then broadcast_address net = network_address net
            else broadcast_address net = network_address net + 1)"
    by (intro exI[of _ ?a]) simp
qed

theorem slash31_32_returns_block_address_witness:
  "validate_subnet ''10.0.0.9/31''
   \<and> IPv4Network ''10.0.0.9/31''
       = Inr \<lparr>network_address = 167772168, netmask = 4294967294, prefixlen = 31, addr = 167772169\<rparr>
   \<and> ((31::int) = 31 \<or> (31::int) = 32)
   \<and> generate_random_ip 3 ''10.0.0.9/31'' init
       = (Inr ''10.0.0.9'', \<lparr>history = [(''10.0.0.9/31'', ''10.0.0.9'')]\<rparr>)
   \<and> IPv4Address ''10.0.0.9'' = Inr 167772169
   \<and> (\<exists>a. generate_random_ip 3 ''10.0.0.9/31'' init
          = (Inr (string_from_ip_int a),
             init\<lparr>history := history init @ [(''10.0.0.9/31'', string_from_ip_int a)]\<rparr>)
        \<and> IPv4Address (string_from_ip_int a) = Inr a
        \<and> (a = 167772168 \<or> a = 167772169))"
proof -
  let ?n = "\<lparr>network_address = 167772168, netmask = 4294967294, prefixlen = 31, addr = 167772169\<rparr>"
  have v: "validate_subnet ''10.0.0.9/31''" by code_simp
  have p: "IPv4Network ''10.0.0.9/31'' = Inr ?n" by code_simp
  have e: "generate_random_ip 3 ''10.0.0.9/31'' init
       = (Inr ''10.0.0.9'', \<lparr>history = [(''10.0.0.9/31'', ''10.0.0.9'')]\<rparr>)" by code_simp
  have q: "IPv4Address ''10.0.0.9'' = Inr 167772169" by code_simp
  from slash31_32_returns_block_address[of "''10.0.0.9/31''" ?n 3 init] v p
  have "\<exists>a. generate_random_ip 3 ''10.0.0.9/31'' init
          = (Inr (string_from_ip_int a),
             init\<lparr>history := history init @ [(''10.0.0.9/31'', string_from_ip_int a)]\<rparr>)
        \<and> IPv4Address (string_from_ip_int a) = Inr a
        \<and> (a = 167772168 \<or> a = 167772169)"
    by auto
  with v p e q show ?thesis by simp
qed

text \<open>
  The claim C2 as stated fails: on \<open>10.0.0.0/32\<close> the call returns \<open>10.0.0.0\<close> and does
  not raise the "No usable hosts" error.
\<close>

theorem slash32_returns_address_counterexample:
  "validate_subnet ''10.0.0.0/32''
   \<and> fst (generate_random_ip 0 ''10.0.0.0/32'' init) = Inr ''10.0.0.0''
   \<and> fst (generate_random_ip 0 ''10.0.0.0/32'' init) \<noteq> Inl (NoUsableHosts ''10.0.0.0/32'')"
  by code_simp

text \<open>
  Claim C3. The host list of every network that \<open>IPv4Network\<close> returns is non-empty, so
  no call of \<open>generate_random_ip\<close>, on any string, for any draw and any generator state,
  raises the "No usable hosts" error.
\<close>

theorem no_usable_hosts_unreachable:
  "(IPv4Network subnet = Inr net \<longrightarrow> hosts net \<noteq> [])
   \<and> fst (generate_random_ip r subnet g) \<noteq> Inl (NoUsableHosts t)"
proof
  show "IPv4Network subnet = Inr net \<longrightarrow> hosts net \<noteq> []"
    using hosts_nonempty by blast
  show "fst (generate_random_ip r subnet g) \<noteq> Inl (NoUsableHosts t)"
  proof (cases "IPv4Network subnet")
    case (Inl e)
    then show ?thesis by (simp add: generate_random_ip_def)
  next
    case (Inr n)
    from hosts_nonempty[OF this] Inr show ?thesis
      by (simp add: generate_random_ip_def Let_def)
  qed
qed

theorem no_usable_hosts_unreachable_witness:
  "IPv4Network ''10.0.0.0/32''
     = Inr \<lparr>network_address = 167772160, netmask = 4294967295, prefixlen = 32, addr = 167772160\<rparr>
   \<and> hosts \<lparr>network_address = 167772160, netmask = 4294967295, prefixlen = 32, addr = 167772160\<rparr> \<noteq> []
   \<and> fst (generate_random_ip 0 ''10.0.0.0/32'' init) \<noteq> Inl (NoUsableHosts ''10.0.0.0/32'')"
proof -
  have h: "IPv4Network ''10.0.0.0/32''
     = Inr \<lparr>network_address = 167772160, netmask = 4294967295, prefixlen = 32, addr = 167772160\<rparr>"
    by code_simp
  from h no_usable_hosts_unreachable[of "''10.0.0.0/32''"
      "\<lparr>network_address = 167772160, netmask = 4294967295, prefixlen = 32, addr = 167772160\<rparr>"
      0 init "''10.0.0.0/32''"]
  show ?thesis by blast
qed

section \<open>The format check\<close>

text \<open>
  Claim C5. \<open>validate_subnet\<close> is a syntactic check: it accepts every string made of four
  groups of one to three digits separated by dots, a slash and one or two digits, whatever
  the numbers are. When an octet exceeds 255 or the prefix exceeds 32, the call of
  \<open>generate_random_ip\<close> passes the format check and fails in the parsing step, with the
  "Invalid subnet" error. In particular \<open>999.999.999.999/99\<close> is accepted by
  \<open>validate_subnet\<close> and rejected by the parser (octet 999 exceeds 255).
\<close>

theorem validate_subnet_is_syntactic:
  assumes "digit_group 1 3 a" "digit_group 1 3 b" "digit_group 1 3 c" "digit_group 1 3 d"
    and "digit_group 1 2 p"
  shows "validate_subnet (cidr_string a b c d p)
    \<and> (255 < int_of_digits a \<or> 255 < int_of_digits b \<or> 255 < int_of_digits c
         \<or> 255 < int_of_digits d \<or> 32 < int_of_digits p \<longrightarrow>
       (\<exists>e. generate_random_ip r (cidr_string a b c d p) g = (Inl (InvalidSubnet e), g)))
    \<and> validate_subnet ''999.999.999.999/99''
    \<and> generate_random_ip r ''999.999.999.999/99'' g
        = (Inl (InvalidSubnet (BadOctet (OctetTooBig 999))), g)"
proof (intro conjI impI)
  show v: "validate_subnet (cidr_string a b c d p)"
    using subnet_pattern_matches[OF assms, of "[]"] by (simp add: validate_subnet_def)
  show "\<exists>e. generate_random_ip r (cidr_string a b c d p) g = (Inl (InvalidSubnet e), g)"
    if "255 < int_of_digits a \<or> 255 < int_of_digits b \<or> 255 < int_of_digits c
         \<or> 255 < int_of_digits d \<or> 32 < int_of_digits p"
  proof -
    from IPv4Network_out_of_bounds[OF assms that] obtain e
      where "IPv4Network (cidr_string a b c d p) = Inl e" ..
    from generate_random_ip_parse_error[OF v this] show ?thesis ..
  qed
  show v9: "validate_subnet ''999.999.999.999/99''" by code_simp
  have "IPv4Network ''999.999.999.999/99'' = Inl (BadOctet (OctetTooBig 999))" by code_simp
  with v9 show "generate_random_ip r ''999.999.999.999/99'' g
        = (Inl (InvalidSubnet (BadOctet (OctetTooBig 999))), g)"
    by (rule generate_random_ip_parse_error)
qed

theorem validate_subnet_is_syntactic_witness:
  "digit_group 1 3 ''10'' \<and> digit_group 1 3 ''0'' \<and> digit_group 1 3 ''256'' \<and> digit_group 1 3 ''1''
   \<and> digit_group 1 2 ''24''
   \<and> 255 < int_of_digits ''256''
   \<and> validate_subnet ''10.0.256.1/24''
   \<and> (\<exists>e. generate_random_ip 7 ''10.0.256.1/24'' init = (Inl (InvalidSubnet e), init))"
proof -
  have g: "digit_group 1 3 ''10''" "digit_group 1 3 ''0''" "digit_group 1 3 ''256''"
    "digit_group 1 3 ''1''" "digit_group 1 2 ''24''"
    by code_simp+
  have b: "255 < int_of_digits ''256''" by code_simp
  have s: "cidr_string ''10'' ''0'' ''256'' ''1'' ''24'' = ''10.0.256.1/24''"
    by (simp add: cidr_string_def)
  from validate_subnet_is_syntactic[OF g, of 7 init] g b show ?thesis
    unfolding s by blast
qed

text \<open>
  Claim C10. Because \<open>$\<close> also matches just before a final newline, a string of the
  lexical shape followed by one newline still passes \<open>validate_subnet\<close>; the call of
  \<open>generate_random_ip\<close> on it is not rejected by the format check but reaches the parsing
  step, where it fails with the "Invalid subnet" error.
\<close>

theorem trailing_newline_passes_validate_subnet:
  assumes "digit_group 1 3 a" "digit_group 1 3 b" "digit_group 1 3 c" "digit_group 1 3 d"
    and "digit_group 1 2 p"
  shows "validate_subnet (cidr_string a b c d p)
    \<and> validate_subnet (cidr_string a b c d p @ [CHR 0x0A])
    \<and> (\<exists>e. generate_random_ip r (cidr_string a b c d p @ [CHR 0x0A]) g
             = (Inl (InvalidSubnet e), g))"
proof (intro conjI)
  show "validate_subnet (cidr_string a b c d p)"
    using subnet_pattern_matches[OF assms, of "[]"] by (simp add: validate_subnet_def)
  show v: "validate_subnet (cidr_string a b c d p @ [CHR 0x0A])"
    using subnet_pattern_matches[OF assms, of "[CHR 0x0A]"] by (simp add: validate_subnet_def)
  have "CHR ''/'' \<notin> set (p @ [CHR 0x0A])"
    using digit_group_props(5)[OF assms(5)] by simp
  from IPv4Network_cidr_string[OF assms(1-4) this] make_netmask_trailing_newline[OF assms(5)]
  have "\<exists>e. IPv4Network (cidr_string a b c d p @ [CHR 0x0A]) = Inl e"
    unfolding cidr_string_append[of a b c d p] by (cases "parse_octets [a, b, c, d]") simp_all
  then obtain e where "IPv4Network (cidr_string a b c d p @ [CHR 0x0A]) = Inl e" ..
  from generate_random_ip_parse_error[OF v this]
  show "\<exists>e. generate_random_ip r (cidr_string a b c d p @ [CHR 0x0A]) g
             = (Inl (InvalidSubnet e), g)" ..
qed

theorem trailing_newline_passes_validate_subnet_witness:
  "digit_group 1 3 ''192'' \<and> digit_group 1 3 ''168'' \<and> digit_group 1 3 ''1'' \<and> digit_group 1 3 ''0''
   \<and> digit_group 1 2 ''24''
   \<and> validate_subnet ''192.168.1.0/24''
   \<and> validate_subnet ''192.168.1.0/24\<newline>''
   \<and> (\<exists>e. generate_random_ip 0 ''192.168.1.0/24\<newline>'' init = (Inl (InvalidSubnet e), init))"
proof -
  have g: "digit_group 1 3 ''192''" "digit_group 1 3 ''168''" "digit_group 1 3 ''1''"
    "digit_group 1 3 ''0''" "digit_group 1 2 ''24''"
    by code_simp+
  have s: "cidr_string ''192'' ''168'' ''1'' ''0'' ''24'' = ''192.168.1.0/24''"
    "cidr_string ''192'' ''168'' ''1'' ''0'' ''24'' @ [CHR 0x0A] = ''192.168.1.0/24\<newline>''"
    by (simp_all add: cidr_string_def)
  from trailing_newline_passes_validate_subnet[OF g, of 0 init] g show ?thesis
    unfolding s by simp
qed

text \<open>
  Claim C4, at the input on which the code departs from it. The string
  \<open>192.168.1.0/24\<close> followed by a newline does not have the lexical shape, yet
  \<open>generate_random_ip\<close> does not raise the "Invalid subnet format" error on it: the format
  check lets it through and the parser raises "Invalid subnet" for the netmask
  \<open>24\<close>-newline. On \<open>not-an-ip\<close> the call does raise the "Invalid subnet format" error.
\<close>

theorem trailing_newline_not_invalid_format:
  "\<not> lexical_shape ''192.168.1.0/24\<newline>''
   \<and> generate_random_ip r ''192.168.1.0/24\<newline>'' g
       = (Inl (InvalidSubnet (InvalidNetmask ''24\<newline>'')), g)
   \<and> generate_random_ip r ''192.168.1.0/24\<newline>'' g \<noteq> (Inl InvalidFormat, g)
   \<and> generate_random_ip r ''not-an-ip'' g = (Inl InvalidFormat, g)"
proof (intro conjI)
  show "\<not> lexical_shape ''192.168.1.0/24\<newline>''"
  proof
    assume "lexical_shape ''192.168.1.0/24\<newline>''"
    from lexical_shape_last_digit[OF this] show False by (simp add: is_digit_def)
  qed
  have v: "validate_subnet ''192.168.1.0/24\<newline>''" by code_simp
  have p: "IPv4Network ''192.168.1.0/24\<newline>'' = Inl (InvalidNetmask ''24\<newline>'')" by code_simp
  from v p show r: "generate_random_ip r ''192.168.1.0/24\<newline>'' g
       = (Inl (InvalidSubnet (InvalidNetmask ''24\<newline>'')), g)"
    by (rule generate_random_ip_parse_error)
  show "generate_random_ip r ''192.168.1.0/24\<newline>'' g \<noteq> (Inl InvalidFormat, g)"
    unfolding r by simp
  have "\<not> validate_subnet ''not-an-ip''" by code_simp
  then show "generate_random_ip r ''not-an-ip'' g = (Inl InvalidFormat, g)"
    by (simp add: generate_random_ip_def)
qed

section \<open>Host bits in the address part\<close>

text \<open>
  Claim C6. A subnet string that passes the format check and parses is never rejected for
  having host bits set: the network address is the written address masked with the
  netmask, and the call returns an address. The canonical form of the same block
  (\<open>str(network)\<close>, the base address, a slash and the prefix length) passes the format
  check too, parses to the same network, and for the same random draw the call returns
  the same address for both strings.
\<close>

theorem host_bits_are_masked_off:
  assumes "validate_subnet subnet" "IPv4Network subnet = Inr net"
  shows "network_address net = addr net AND netmask net
    \<and> (\<exists>ip. fst (generate_random_ip r subnet g) = Inr ip)
    \<and> validate_subnet (str_network net)
    \<and> IPv4Network (str_network net) = Inr (net\<lparr>addr := network_address net\<rparr>)
    \<and> fst (generate_random_ip r (str_network net) g) = fst (generate_random_ip r subnet g)"
proof -
  note canon = str_network_parses[OF assms(2)]
  have 1: "fst (generate_random_ip r subnet g)
           = Inr (string_from_ip_int (random_choice r (hosts net)))"
    using generate_random_ip_success[OF assms, of r g] by simp
  have 2: "fst (generate_random_ip r (str_network net) g)
           = Inr (string_from_ip_int (random_choice r (hosts net)))"
    using generate_random_ip_success[OF canon(2,1), of r g] hosts_of_canonical[OF assms(2)]
    by simp
  from 1 2 canon IPv4Network_props(6)[OF assms(2)] show ?thesis by simp
qed

theorem host_bits_are_masked_off_witness:
  "validate_subnet ''192.168.1.5/24''
   \<and> IPv4Network ''192.168.1.5/24''
       = Inr \<lparr>network_address = 3232235776, netmask = 4294967040, prefixlen = 24, addr = 3232235781\<rparr>
   \<and> str_network \<lparr>network_address = 3232235776, netmask = 4294967040, prefixlen = 24, addr = 3232235781\<rparr>
       = ''192.168.1.0/24''
   \<and> fst (generate_random_ip 300 ''192.168.1.5/24'' init) = Inr ''192.168.1.47''
   \<and> fst (generate_random_ip 300 ''192.168.1.0/24'' init) = fst (generate_random_ip 300 ''192.168.1.5/24'' init)"
proof -
  let ?n = "\<lparr>network_address = 3232235776, netmask = 4294967040, prefixlen = 24, addr = 3232235781\<rparr>"
  have v: "validate_subnet ''192.168.1.5/24''" by code_simp
  have p: "IPv4Network ''192.168.1.5/24'' = Inr ?n" by code_simp
  have s: "str_network ?n = ''192.168.1.0/24''" by code_simp
  have e: "fst (generate_random_ip 300 ''192.168.1.5/24'' init) = Inr ''192.168.1.47''" by code_simp
  from host_bits_are_masked_off[OF v p, of 300 init] v p s e show ?thesis by simp
qed

section \<open>The history\<close>

text \<open>
  Claim C8 (history round-trip). Starting from a fresh generator, after any sequence of
  calls to \<open>generate_random_ip\<close>, \<open>get_history\<close> returns exactly the entries of the
  calls that returned an address, in call order, each pairing the subnet argument with
  the address returned; calls that raised contribute nothing. So the history has as many
  entries as there were successful calls, and after \<open>clear_history\<close> it has none.
\<close>

theorem history_round_trip:
  "get_history (snd (calls cs init)) = recorded cs (fst (calls cs init))
   \<and> length (get_history (snd (calls cs init)))
       = length (filter (\<lambda>res. \<not> isl res) (fst (calls cs init)))
   \<and> get_history (clear_history (snd (calls cs init))) = []"
proof -
  have h: "get_history (snd (calls cs init)) = recorded cs (fst (calls cs init))"
    using calls_history[of cs init] by (simp add: get_history_def init_def)
  have "length (recorded cs (fst (calls cs init)))
        = length (filter (\<lambda>res. \<not> isl res) (fst (calls cs init)))"
    by (rule recorded_length) (rule calls_length)
  with h show ?thesis by (simp add: get_history_def clear_history_def)
qed

text \<open>
  Claim C9 (idempotence of \<open>clear_history\<close>). \<open>clear_history\<close> has no failing branch;
  clearing twice is the same as clearing once, and on a generator whose history is
  already empty it changes nothing.
\<close>

theorem clear_history_idempotent:
  "clear_history (clear_history self) = clear_history self
   \<and> get_history (clear_history self) = []
   \<and> (get_history self = [] \<longrightarrow> clear_history self = self)"
  by (simp add: clear_history_def get_history_def)

theorem clear_history_idempotent_witness:
  "get_history init = [] \<and> clear_history init = init
   \<and> clear_history (clear_history init) = clear_history init"
  using clear_history_idempotent[of init] by (simp add: init_def get_history_def)

text \<open>
  Claim C7 (history invariant), as amended. For every entry of the history, the subnet
  string parses to a network, the address string parses to an address, and the address
  lies in the block of the network; when the prefix length is at most 30 it is neither
  the network address nor the broadcast address. The invariant holds of the fresh
  generator, every operation (\<open>generate_random_ip\<close>, \<open>get_history\<close>, \<open>clear_history\<close>)
  preserves it, and so it holds after every session.
\<close>

theorem history_invariant_holds:
  "history_invariant init
   \<and> (history_invariant self \<longrightarrow> history_invariant (apply_operation c self))
   \<and> history_invariant (run cs init)"
proof -
  have i: "history_invariant init" by (simp add: history_invariant_def init_def)
  then have "history_invariant (run cs init)" by (rule run_preserves_invariant)
  with i show ?thesis by (simp add: apply_operation_preserves_invariant)
qed

theorem history_invariant_holds_witness:
  "history_invariant \<lparr>history = [(''10.0.0.5/30'', ''10.0.0.6'')]\<rparr>
   \<and> \<not> history_invariant \<lparr>history = [(''10.0.0.5/30'', ''10.0.0.7'')]\<rparr>
   \<and> \<not> history_invariant \<lparr>history = [(''10.0.0.5/30'', ''10.0.0.4'')]\<rparr>
   \<and> \<not> history_invariant \<lparr>history = [(''10.0.0.5/30'', ''192.168.1.1'')]\<rparr>
   \<and> history_invariant (apply_operation (GenerateRandomIp 0 ''10.0.0.0/32'')
        \<lparr>history = [(''10.0.0.5/30'', ''10.0.0.6'')]\<rparr>)
   \<and> get_history (apply_operation (GenerateRandomIp 0 ''10.0.0.0/32'')
        \<lparr>history = [(''10.0.0.5/30'', ''10.0.0.6'')]\<rparr>)
       = [(''10.0.0.5/30'', ''10.0.0.6''), (''10.0.0.0/32'', ''10.0.0.0'')]"
proof -
  have h: "history_invariant \<lparr>history = [(''10.0.0.5/30'', ''10.0.0.6'')]\<rparr>" by code_simp
  have n: "\<not> history_invariant \<lparr>history = [(''10.0.0.5/30'', ''10.0.0.7'')]\<rparr>"
    "\<not> history_invariant \<lparr>history = [(''10.0.0.5/30'', ''10.0.0.4'')]\<rparr>"
    "\<not> history_invariant \<lparr>history = [(''10.0.0.5/30'', ''192.168.1.1'')]\<rparr>"
    by code_simp+
  have g: "get_history (apply_operation (GenerateRandomIp 0 ''10.0.0.0/32'')
        \<lparr>history = [(''10.0.0.5/30'', ''10.0.0.6'')]\<rparr>)
       = [(''10.0.0.5/30'', ''10.0.0.6''), (''10.0.0.0/32'', ''10.0.0.0'')]" by code_simp
  from h n g history_invariant_holds[of "\<lparr>history = [(''10.0.0.5/30'', ''10.0.0.6'')]\<rparr>"
      "GenerateRandomIp 0 ''10.0.0.0/32''"]
  show ?thesis by blast
qed

text \<open>
  The claim C7 as stated fails: with the host range of the specification (network and
  broadcast address excluded), the session that generates once from \<open>10.0.0.0/32\<close>
  records the entry \<open>(10.0.0.0/32, 10.0.0.0)\<close>, whose address is the network address of
  its block.
\<close>

theorem history_spec_host_range_counterexample:
  "get_history (run [GenerateRandomIp 0 ''10.0.0.0/32''] init) = [(''10.0.0.0/32'', ''10.0.0.0'')]
   \<and> \<not> entry_in_spec_host_range (''10.0.0.0/32'', ''10.0.0.0'')"
  by code_simp

end
